theory Spec2Isabelle
  imports Main "HOL-Library.Word"
begin

unbundle bit_operations_syntax

section \<open>Bytes, errors and configuration\<close>

text \<open>
  A Go \<open>byte\<close> is an 8-bit word and a Go \<open>string\<close> is a sequence of bytes.
  The byte literals that csv.go compares against are named once.
\<close>

type_synonym byte = "8 word"

abbreviation TAB :: byte where "TAB \<equiv> 0x09"
abbreviation LF :: byte where "LF \<equiv> 0x0A"
abbreviation CR :: byte where "CR \<equiv> 0x0D"
abbreviation SP :: byte where "SP \<equiv> 0x20"
abbreviation DQ :: byte where "DQ \<equiv> 0x22"
abbreviation COMMA :: byte where "COMMA \<equiv> 0x2C"

text \<open>
  The error values that travel through csv.go: \<open>io.EOF\<close>, \<open>io.ErrUnexpectedEOF\<close>, any
  other failure of the byte source or sink (\<open>IOFailure\<close>), and the error that ReadRow
  builds with \<open>errors.New("expected , got " + ...)\<close>, which keeps the offending byte.
  \<open>PanicSliceBounds\<close> stands for the run-time panic of a slice expression whose upper
  bound is negative; \<open>parseCell_no_panic\<close> shows that \<open>parseCell\<close> does not produce it.
\<close>

datatype err = EOF | ErrUnexpectedEOF | IOFailure | ErrExpected byte | PanicSliceBounds

record Config =
  TrimSpaces :: bool
  FieldDelim :: byte

definition DefaultConfig :: Config where
  "DefaultConfig = \<lparr>TrimSpaces = False, FieldDelim = COMMA\<rparr>"

section \<open>The byte sink\<close>

text \<open>
  \<open>bufio.Writer\<close> over the caller's \<open>io.Writer\<close>, seen as one sink: the bytes it has
  taken so far, and how many more it takes before its writes fail (\<open>None\<close>: it never
  fails, as a bytes.Buffer). \<open>WriteString\<close> stops at the first byte that fails.
  \<open>Flush\<close> hands on what was written and reports no failure of its own.
\<close>

record bufioWriter =
  wrote :: "byte list"
  room :: "nat option"

definition WriteByte :: "byte \<Rightarrow> bufioWriter \<Rightarrow> err option \<times> bufioWriter" where
  "WriteByte b w = (case room w of
      None \<Rightarrow> (None, w\<lparr>wrote := wrote w @ [b]\<rparr>)
    | Some 0 \<Rightarrow> (Some IOFailure, w)
    | Some (Suc n) \<Rightarrow> (None, w\<lparr>wrote := wrote w @ [b], room := Some n\<rparr>))"

fun WriteString :: "byte list \<Rightarrow> bufioWriter \<Rightarrow> err option \<times> bufioWriter" where
  "WriteString [] w = (None, w)"
| "WriteString (b # bs) w =
     (case WriteByte b w of
        (Some e, w') \<Rightarrow> (Some e, w')
      | (None, w') \<Rightarrow> WriteString bs w')"

definition Flush :: "bufioWriter \<Rightarrow> err option \<times> bufioWriter" where
  "Flush w = (None, w)"

text \<open>\<open>bytes.NewBuffer(nil)\<close> as a sink: empty, and it takes every byte.\<close>

definition emptyBuffer :: bufioWriter where
  "emptyBuffer = \<lparr>wrote = [], room = None\<rparr>"

section \<open>Ranging over a string\<close>

text \<open>
  \<open>for _, c := range s\<close> does not visit bytes: Go decodes UTF-8 and yields runes. A byte
  below \<open>0x80\<close> is its own rune; otherwise the run-time function \<open>decoderune\<close> decodes
  a sequence of two, three or four bytes, and yields \<open>0xFFFD\<close> for one byte when the
  encoding is not valid. A rune is an \<open>int32\<close>; every value here is between 0 and
  \<open>0x1FFFFF\<close>, so it is an \<open>int\<close> without wrap-around. \<open>rune b\<close> is the conversion
  \<open>rune(b)\<close> of a byte. In \<open>decoderune b0 s\<close> the byte \<open>b0\<close> is the one under the
  cursor and \<open>s\<close> holds the bytes after it; the result is the rune and its width.
  The range clause belongs to the Go language and not to csv.go; the definitions follow
  \<open>decoderune\<close> in runtime/utf8.go, with its constants written out.
\<close>

definition rune :: "byte \<Rightarrow> int" where
  "rune b = uint b"

definition cont :: "byte \<Rightarrow> bool" where
  "cont b \<longleftrightarrow> 0x80 \<le> b \<and> b \<le> 0xBF"

definition decoderune :: "byte \<Rightarrow> byte list \<Rightarrow> int \<times> nat" where
  "decoderune b0 s =
     (if 0xC0 \<le> b0 \<and> b0 < 0xE0 then
        (if length s > 0 \<and> cont (s ! 0) then
           (let r = push_bit 6 (rune (b0 AND 0x1F)) OR rune (s ! 0 AND 0x3F)
            in if 0x7F < r then (r, 2) else (0xFFFD, 1))
         else (0xFFFD, 1))
      else if 0xE0 \<le> b0 \<and> b0 < 0xF0 then
        (if length s > 1 \<and> cont (s ! 0) \<and> cont (s ! 1) then
           (let r = push_bit 12 (rune (b0 AND 0x0F)) OR push_bit 6 (rune (s ! 0 AND 0x3F))
                      OR rune (s ! 1 AND 0x3F)
            in if 0x7FF < r \<and> \<not> (0xD800 \<le> r \<and> r \<le> 0xDFFF) then (r, 3) else (0xFFFD, 1))
         else (0xFFFD, 1))
      else if 0xF0 \<le> b0 \<and> b0 < 0xF8 then
        (if length s > 2 \<and> cont (s ! 0) \<and> cont (s ! 1) \<and> cont (s ! 2) then
           (let r = push_bit 18 (rune (b0 AND 0x07)) OR push_bit 12 (rune (s ! 0 AND 0x3F))
                      OR push_bit 6 (rune (s ! 1 AND 0x3F)) OR rune (s ! 2 AND 0x3F)
            in if 0xFFFF < r \<and> r \<le> 0x10FFFF then (r, 4) else (0xFFFD, 1))
         else (0xFFFD, 1))
      else (0xFFFD, 1))"

function stringRunes :: "byte list \<Rightarrow> int list" where
  "stringRunes [] = []"
| "stringRunes (b # s) =
     (if b < 0x80 then rune b # stringRunes s
      else (case decoderune b s of (r, n) \<Rightarrow> r # stringRunes (drop (n - 1) s)))"
  by pat_completeness auto
termination
  by (relation "measure length") auto

section \<open>Writer\<close>

record Writer =
  out :: bufioWriter
  Config :: Config

text \<open>\<open>NewWriter(w)\<close> wraps \<open>w\<close> in a \<open>bufio.Writer\<close>; the model is handed the sink.\<close>

definition NewWriter :: "bufioWriter \<Rightarrow> Writer" where
  "NewWriter w = \<lparr>out = w, Config = DefaultConfig\<rparr>"

definition needsQuotes :: "Writer \<Rightarrow> byte list \<Rightarrow> bool" where
  "needsQuotes w s =
     (if length s > 0 \<and> (s ! 0 = SP \<or> s ! (length s - 1) = SP) then True
      else list_ex (\<lambda>c. c = rune LF \<or> c = rune DQ \<or> c = rune TAB
                          \<or> c = rune (FieldDelim (Config w))) (stringRunes s))"

text \<open>The loop \<open>for i := 0; i < len(cell); i++\<close> of \<open>writeCell\<close>, over the bytes of the cell.\<close>

fun writeQuotedLoop :: "byte list \<Rightarrow> bufioWriter \<Rightarrow> err option \<times> bufioWriter" where
  "writeQuotedLoop [] w = (None, w)"
| "writeQuotedLoop (b # bs) w =
     (case (if b = DQ then WriteString [DQ, DQ] w else WriteByte b w) of
        (Some e, w') \<Rightarrow> (Some e, w')
      | (None, w') \<Rightarrow> writeQuotedLoop bs w')"

definition writeCell :: "Writer \<Rightarrow> byte list \<Rightarrow> err option \<times> Writer" where
  "writeCell w cell =
     (if needsQuotes w cell then
        (case WriteByte DQ (out w) of
           (Some e, o1) \<Rightarrow> (Some e, w\<lparr>out := o1\<rparr>)
         | (None, o1) \<Rightarrow>
             (case writeQuotedLoop cell o1 of
                (Some e, o2) \<Rightarrow> (Some e, w\<lparr>out := o2\<rparr>)
              | (None, o2) \<Rightarrow> (case WriteByte DQ o2 of (e, o3) \<Rightarrow> (e, w\<lparr>out := o3\<rparr>))))
      else (case WriteString cell (out w) of (e, o1) \<Rightarrow> (e, w\<lparr>out := o1\<rparr>)))"

text \<open>The loop \<open>for i, cell := range row\<close> of \<open>WriteRow\<close>, with the index \<open>i\<close>.\<close>

fun writeRowLoop :: "nat \<Rightarrow> byte list list \<Rightarrow> Writer \<Rightarrow> err option \<times> Writer" where
  "writeRowLoop i [] w = (None, w)"
| "writeRowLoop i (cell # cells) w =
     (case (if i > 0 then WriteByte (FieldDelim (Config w)) (out w) else (None, out w)) of
        (Some e, o1) \<Rightarrow> (Some e, w\<lparr>out := o1\<rparr>)
      | (None, o1) \<Rightarrow>
          (case writeCell (w\<lparr>out := o1\<rparr>) cell of
             (Some e, w1) \<Rightarrow> (Some e, w1)
           | (None, w1) \<Rightarrow> writeRowLoop (i + 1) cells w1))"

definition WriteRow :: "Writer \<Rightarrow> byte list list \<Rightarrow> err option \<times> Writer" where
  "WriteRow w row =
     (case writeRowLoop 0 row w of
        (Some e, w1) \<Rightarrow> (Some e, w1)
      | (None, w1) \<Rightarrow>
          (case WriteByte LF (out w1) of
             (Some e, o2) \<Rightarrow> (Some e, w1\<lparr>out := o2\<rparr>)
           | (None, o2) \<Rightarrow> (case Flush o2 of (e, o3) \<Rightarrow> (e, w1\<lparr>out := o3\<rparr>))))"

text \<open>The method \<open>(*Writer).WriteAll\<close> and the package function \<open>WriteAll(out, rows)\<close>.\<close>

fun Writer_WriteAll :: "Writer \<Rightarrow> byte list list list \<Rightarrow> err option \<times> Writer" where
  "Writer_WriteAll w [] = (None, w)"
| "Writer_WriteAll w (row # rows) =
     (case WriteRow w row of
        (Some e, w1) \<Rightarrow> (Some e, w1)
      | (None, w1) \<Rightarrow> Writer_WriteAll w1 rows)"

definition WriteAll :: "bufioWriter \<Rightarrow> byte list list list \<Rightarrow> err option \<times> bufioWriter" where
  "WriteAll snk rows = (case Writer_WriteAll (NewWriter snk) rows of (e, w) \<Rightarrow> (e, out w))"

text \<open>
  What the writer sends to a sink that never fails, as plain byte strings: the writer
  \<open>w\<close> after the bytes \<open>bs\<close> went out, the cell with its double-quotes doubled, a
  cell, the cells of a row from index \<open>i\<close> on, and a row with its newline. The lemmas
  on the sink that never fails show that the writer emits exactly these.
\<close>

definition wrote_more :: "Writer \<Rightarrow> byte list \<Rightarrow> Writer" where
  "wrote_more w bs = w\<lparr>out := (out w)\<lparr>wrote := wrote (out w) @ bs\<rparr>\<rparr>"

fun quoteDoubled :: "byte list \<Rightarrow> byte list" where
  "quoteDoubled [] = []"
| "quoteDoubled (b # bs) = (if b = DQ then [DQ, DQ] else [b]) @ quoteDoubled bs"

definition cellBytes :: "Writer \<Rightarrow> byte list \<Rightarrow> byte list" where
  "cellBytes w cell = (if needsQuotes w cell then [DQ] @ quoteDoubled cell @ [DQ] else cell)"

fun cellsBytes :: "Writer \<Rightarrow> nat \<Rightarrow> byte list list \<Rightarrow> byte list" where
  "cellsBytes w i [] = []"
| "cellsBytes w i (cell # cells) =
     (if i > 0 then [FieldDelim (Writer.Config w)] else []) @ cellBytes w cell @ cellsBytes w (i + 1) cells"

definition rowBytes :: "Writer \<Rightarrow> byte list list \<Rightarrow> byte list" where
  "rowBytes w row = cellsBytes w 0 row @ [LF]"

section \<open>The byte source\<close>

text \<open>
  \<open>io.ByteReader\<close>: the bytes still to be delivered, and the error that \<open>ReadByte\<close>
  reports once they are used up (\<open>EOF\<close> for strings.Reader and bufio.Reader at the end of
  their input, another error for a source that breaks). A failed \<open>ReadByte\<close> consumes
  nothing and returns the byte 0, as the readers of the standard library do.
\<close>

record ByteReader =
  pending :: "byte list"
  fin :: err

definition ReadByte :: "ByteReader \<Rightarrow> byte \<times> err option \<times> ByteReader" where
  "ReadByte s = (case pending s of
      [] \<Rightarrow> (0, Some (fin s), s)
    | b # bs \<Rightarrow> (b, None, s\<lparr>pending := bs\<rparr>))"

text \<open>\<open>strings.NewReader(s)\<close>, also behind \<open>bufio.NewReader\<close>: the bytes of \<open>s\<close>, then EOF.\<close>

definition stringReader :: "byte list \<Rightarrow> ByteReader" where
  "stringReader s = \<lparr>pending = s, fin = EOF\<rparr>"

section \<open>Reader\<close>

text \<open>
  The reader keeps its scratch buffer \<open>tmpbuf\<close>, its byte source and its configuration,
  which every operation reads afresh. The loops of csv.go end because each round takes
  a byte from the source: the facts about \<open>remaining\<close> that their termination proofs
  need stand between the definitions.
\<close>

record Reader =
  tmpbuf :: "byte list"
  br :: ByteReader
  Config :: Config

definition NewReader :: "ByteReader \<Rightarrow> Reader" where
  "NewReader r = \<lparr>tmpbuf = [], br = r, Config = DefaultConfig\<rparr>"

text \<open>\<open>r.br.ReadByte()\<close>: the read advances the source held by the reader.\<close>

definition brReadByte :: "Reader \<Rightarrow> byte \<times> err option \<times> Reader" where
  "brReadByte r = (case ReadByte (br r) of (b, e, s) \<Rightarrow> (b, e, r\<lparr>br := s\<rparr>))"

text \<open>The number of bytes the reader's source still holds; every loop below consumes them.\<close>

definition remaining :: "Reader \<Rightarrow> nat" where
  "remaining r = length (pending (br r))"

lemma brReadByte_ok_remaining:
  "brReadByte r = (b, None, r') \<Longrightarrow> remaining r' < remaining r"
  by (auto simp: brReadByte_def ReadByte_def remaining_def split: list.splits)

lemma brReadByte_remaining_le:
  "brReadByte r = (b, e, r') \<Longrightarrow> remaining r' \<le> remaining r"
  by (auto simp: brReadByte_def ReadByte_def remaining_def split: list.splits)

lemma brReadByte_err_remaining:
  "brReadByte r = (b, Some x, r') \<Longrightarrow> remaining r' = 0"
  by (auto simp: brReadByte_def ReadByte_def remaining_def split: list.splits)

text \<open>
  The loop \<open>for b == ' ' && e == nil { b, e = r.br.ReadByte() }\<close>, which parseQuoted runs
  after a closing quote and parseCell runs on leading spaces.
\<close>

function eatSpaces :: "byte \<Rightarrow> err option \<Rightarrow> Reader \<Rightarrow> byte \<times> err option \<times> Reader" where
  "eatSpaces b e r =
     (if b = SP \<and> e = None
      then (case brReadByte r of (b', e', r') \<Rightarrow> eatSpaces b' e' r')
      else (b, e, r))"
  by pat_completeness auto
termination
proof (relation "measure (\<lambda>(b, e, r). remaining r + (if e = None then 1 else 0))")
  show "wf (measure (\<lambda>(b, e, r). remaining r + (if e = None then 1 else 0)))"
    by simp
next
  fix b :: byte and e :: "err option" and r r' :: Reader and b' x e'
  assume "b = SP \<and> e = None" and "(b', x) = brReadByte r" and "(e', r') = x"
  then have rd: "brReadByte r = (b', e', r')" and e: "e = None"
    by simp_all
  show "((b', e', r'), (b, e, r)) \<in> measure (\<lambda>(b, e, r). remaining r + (if e = None then 1 else 0))"
  proof (cases e')
    case None
    with rd have "remaining r' < remaining r"
      by (simp add: brReadByte_ok_remaining)
    with e show ?thesis by simp
  next
    case (Some x)
    with rd have "remaining r' \<le> remaining r"
      using brReadByte_remaining_le by blast
    with e Some show ?thesis by simp
  qed
qed

declare eatSpaces.simps [simp del]

text \<open>
  The body of \<open>parseQuoted\<close> after \<open>r.tmpbuf.Reset()\<close>: the \<open>for\<close> loop that copies
  bytes into \<open>tmpbuf\<close>, turns two double-quotes into one, and stops at the first
  double-quote that is not followed by another. A read error inside the quotes is
  returned with an empty string, and \<open>io.EOF\<close> is replaced by \<open>io.ErrUnexpectedEOF\<close>.
\<close>

function parseQuotedLoop :: "Reader \<Rightarrow> byte list \<times> byte \<times> err option \<times> Reader" where
  "parseQuotedLoop r =
     (case brReadByte r of (b, e, r1) \<Rightarrow>
        (case e of
           Some x \<Rightarrow> ([], 0, Some (if x = EOF then ErrUnexpectedEOF else x), r1)
         | None \<Rightarrow>
             if b = DQ
             then (case brReadByte r1 of (b2, e2, r2) \<Rightarrow>
                     if b2 = DQ \<and> e2 = None
                     then parseQuotedLoop (r2\<lparr>tmpbuf := tmpbuf r2 @ [DQ]\<rparr>)
                     else (case eatSpaces b2 e2 r2 of (b3, e3, r3) \<Rightarrow>
                             (tmpbuf r3, b3, None, r3)))
             else parseQuotedLoop (r1\<lparr>tmpbuf := tmpbuf r1 @ [b]\<rparr>)))"
  by pat_completeness auto
termination
proof (relation "measure remaining")
  show "wf (measure remaining)"
    by simp
next
  fix r r1 r2 :: Reader and b b2 :: byte and x e x2 e2
  assume "(b, x) = brReadByte r" and "(e, r1) = x" and "e = None" and "b = DQ"
    and "(b2, x2) = brReadByte r1" and "(e2, r2) = x2" and "b2 = DQ \<and> e2 = None"
  then have rd1: "brReadByte r = (b, None, r1)" and rd2: "brReadByte r1 = (b2, None, r2)"
    by simp_all
  have "remaining r2 < remaining r"
    using brReadByte_ok_remaining [OF rd1] brReadByte_ok_remaining [OF rd2] by simp
  then show "(r2\<lparr>tmpbuf := tmpbuf r2 @ [DQ]\<rparr>, r) \<in> measure remaining"
    by (simp add: remaining_def)
next
  fix r r1 :: Reader and b :: byte and x e
  assume "(b, x) = brReadByte r" and "(e, r1) = x" and "e = None" and "b \<noteq> DQ"
  then have "brReadByte r = (b, None, r1)"
    by simp
  then have "remaining r1 < remaining r"
    by (rule brReadByte_ok_remaining)
  then show "(r1\<lparr>tmpbuf := tmpbuf r1 @ [b]\<rparr>, r) \<in> measure remaining"
    by (simp add: remaining_def)
qed

declare parseQuotedLoop.simps [simp del]

definition parseQuoted :: "Reader \<Rightarrow> byte list \<times> byte \<times> err option \<times> Reader" where
  "parseQuoted r = parseQuotedLoop (r\<lparr>tmpbuf := []\<rparr>)"

text \<open>
  The unquoted loop of \<open>parseCell\<close>,
  \<open>for e == nil && b != '\n' && b != r.Config.FieldDelim\<close>, over the loop variables
  \<open>trailing_spaces\<close>, \<open>last\<close> (here \<open>last_b\<close>), \<open>b\<close> and \<open>e\<close>. \<open>trailing_spaces\<close> is a Go \<open>int\<close>; it
  counts bytes of the input, so it is a \<open>nat\<close> here.
\<close>

function unquotedLoop ::
  "nat \<Rightarrow> byte \<Rightarrow> byte \<Rightarrow> err option \<Rightarrow> Reader \<Rightarrow> nat \<times> byte \<times> byte \<times> err option \<times> Reader" where
  "unquotedLoop trailing_spaces last_b b e r =
     (if e = None \<and> b \<noteq> LF \<and> b \<noteq> FieldDelim (Config r)
      then (let trailing_spaces' =
                  (if TrimSpaces (Config r)
                   then (if b = SP \<or> b = CR then trailing_spaces + 1 else 0)
                   else trailing_spaces);
                r1 = r\<lparr>tmpbuf := tmpbuf r @ [b]\<rparr>
            in case brReadByte r1 of (b', e', r2) \<Rightarrow> unquotedLoop trailing_spaces' b b' e' r2)
      else (trailing_spaces, last_b, b, e, r))"
  by pat_completeness auto
termination
proof (relation "measure (\<lambda>(t, l, b, e, r). remaining r + (if e = None then 1 else 0))")
  show "wf (measure (\<lambda>(t, l, b, e, r). remaining r + (if e = None then 1 else 0)))"
    by simp
next
  fix trailing_spaces :: nat and last_b b b' :: byte and e e' :: "err option"
    and r r1 r2 :: Reader and ts' :: nat and x
  assume "e = None \<and> b \<noteq> LF \<and> b \<noteq> FieldDelim (Config r)"
    and "r1 = r\<lparr>tmpbuf := tmpbuf r @ [b]\<rparr>"
    and "(b', x) = brReadByte r1" and "(e', r2) = x"
  then have rd: "brReadByte r1 = (b', e', r2)" and e: "e = None"
    and r1: "remaining r1 = remaining r"
    by (simp_all add: remaining_def)
  show "((ts', b, b', e', r2), (trailing_spaces, last_b, b, e, r))
          \<in> measure (\<lambda>(t, l, b, e, r). remaining r + (if e = None then 1 else 0))"
  proof (cases e')
    case None
    with rd have "remaining r2 < remaining r1"
      by (simp add: brReadByte_ok_remaining)
    with e r1 show ?thesis by simp
  next
    case (Some y)
    with rd have "remaining r2 \<le> remaining r1"
      using brReadByte_remaining_le by blast
    with e r1 Some show ?thesis by simp
  qed
qed

declare unquotedLoop.simps [simp del]

text \<open>
  \<open>parseCell\<close>. The slice \<open>s[0 : len(s)-trailing_spaces]\<close> panics when the bound is
  negative; the model returns \<open>PanicSliceBounds\<close> there.
\<close>

definition parseCell :: "Reader \<Rightarrow> byte list \<times> byte \<times> err option \<times> Reader" where
  "parseCell r0 =
     (case brReadByte (r0\<lparr>tmpbuf := []\<rparr>) of (b0, e0, r1) \<Rightarrow>
      case (if TrimSpaces (Config r1) then eatSpaces b0 e0 r1 else (b0, e0, r1)) of
        (b, e, r2) \<Rightarrow>
          if e = Some EOF then ([], 0, e, r2)
          else if b = DQ \<and> e = None then parseQuoted r2
          else (case unquotedLoop 0 0 b e r2 of (trailing_spaces, last_b, b', e', r3) \<Rightarrow>
                  if e' \<noteq> None \<and> e' \<noteq> Some EOF then ([], 0, e', r3)
                  else (let trailing_spaces' =
                              (if last_b = CR \<and> b' = LF \<and> trailing_spaces = 0
                               then 1 else trailing_spaces);
                            s = tmpbuf r3
                        in if length s < trailing_spaces'
                           then ([], 0, Some PanicSliceBounds, r3)
                           else (take (length s - trailing_spaces') s, b', None, r3))))"


section \<open>One step of each loop\<close>

lemma eatSpaces_stop:
  "b \<noteq> SP \<or> e \<noteq> None \<Longrightarrow> eatSpaces b e r = (b, e, r)"
  by (subst eatSpaces.simps) auto

lemma eatSpaces_space:
  "brReadByte r = (b', e', r') \<Longrightarrow> eatSpaces SP None r = eatSpaces b' e' r'"
  by (subst eatSpaces.simps) simp

lemma parseQuotedLoop_err:
  "brReadByte r = (b, Some x, r1) \<Longrightarrow>
   parseQuotedLoop r = ([], 0, Some (if x = EOF then ErrUnexpectedEOF else x), r1)"
  by (subst parseQuotedLoop.simps) simp

lemma parseQuotedLoop_copy:
  "brReadByte r = (b, None, r1) \<Longrightarrow> b \<noteq> DQ \<Longrightarrow>
   parseQuotedLoop r = parseQuotedLoop (r1\<lparr>tmpbuf := tmpbuf r1 @ [b]\<rparr>)"
  by (subst parseQuotedLoop.simps) simp

lemma parseQuotedLoop_escaped:
  "brReadByte r = (DQ, None, r1) \<Longrightarrow> brReadByte r1 = (DQ, None, r2) \<Longrightarrow>
   parseQuotedLoop r = parseQuotedLoop (r2\<lparr>tmpbuf := tmpbuf r2 @ [DQ]\<rparr>)"
  by (subst parseQuotedLoop.simps) simp

lemma parseQuotedLoop_close:
  "brReadByte r = (DQ, None, r1) \<Longrightarrow> brReadByte r1 = (b2, e2, r2) \<Longrightarrow>
   b2 \<noteq> DQ \<or> e2 \<noteq> None \<Longrightarrow> eatSpaces b2 e2 r2 = (b3, e3, r3) \<Longrightarrow>
   parseQuotedLoop r = (tmpbuf r3, b3, None, r3)"
  by (subst parseQuotedLoop.simps) auto

lemma unquotedLoop_stop:
  "e \<noteq> None \<or> b = LF \<or> b = FieldDelim (Config r) \<Longrightarrow>
   unquotedLoop ts l b e r = (ts, l, b, e, r)"
  by (subst unquotedLoop.simps) auto

lemma unquotedLoop_step:
  "b \<noteq> LF \<Longrightarrow> b \<noteq> FieldDelim (Config r) \<Longrightarrow>
   brReadByte (r\<lparr>tmpbuf := tmpbuf r @ [b]\<rparr>) = (b', e', r') \<Longrightarrow>
   unquotedLoop ts l b None r =
   unquotedLoop (if TrimSpaces (Config r) then (if b = SP \<or> b = CR then ts + 1 else 0) else ts)
     b b' e' r'"
  by (subst unquotedLoop.simps) (simp add: Let_def)

section \<open>No loop gives bytes back to the source\<close>

lemma eatSpaces_remaining:
  "eatSpaces b e r = (b', e', r') \<Longrightarrow> remaining r' \<le> remaining r"
proof (induction b e r rule: eatSpaces.induct)
  case (1 b e r)
  show ?case
  proof (cases "b = SP \<and> e = None")
    case True
    obtain b1 e1 r1 where rd: "brReadByte r = (b1, e1, r1)"
      by (cases "brReadByte r") auto
    from True "1.prems" have "eatSpaces b1 e1 r1 = (b', e', r')"
      by (simp add: eatSpaces_space [OF rd])
    with "1.IH" True rd have "remaining r' \<le> remaining r1"
      by simp
    with brReadByte_remaining_le [OF rd] show ?thesis
      by simp
  next
    case False
    with "1.prems" show ?thesis
      by (simp add: eatSpaces_stop)
  qed
qed

lemma parseQuotedLoop_remaining:
  "parseQuotedLoop r = (c, t, e, r') \<Longrightarrow> remaining r' \<le> remaining r"
proof (induction r rule: parseQuotedLoop.induct)
  case (1 r)
  obtain b e1 r1 where rd1: "brReadByte r = (b, e1, r1)"
    by (cases "brReadByte r") auto
  obtain b2 e2 r2 where rd2: "brReadByte r1 = (b2, e2, r2)"
    by (cases "brReadByte r1") auto
  obtain b3 e3 r3 where es: "eatSpaces b2 e2 r2 = (b3, e3, r3)"
    by (cases "eatSpaces b2 e2 r2") auto
  note le1 = brReadByte_remaining_le [OF rd1]
  note le2 = brReadByte_remaining_le [OF rd2]
  note le3 = eatSpaces_remaining [OF es]
  show ?case
  proof (cases e1)
    case (Some x)
    with "1.prems" rd1 le1 show ?thesis
      by (simp add: parseQuotedLoop_err)
  next
    case None
    show ?thesis
    proof (cases "b = DQ")
      case False
      with None rd1 "1.prems"
      have "parseQuotedLoop (r1\<lparr>tmpbuf := tmpbuf r1 @ [b]\<rparr>) = (c, t, e, r')"
        by (simp add: parseQuotedLoop_copy)
      with "1.IH"(2) [of b "(e1, r1)" e1 r1] rd1 None False
      have "remaining r' \<le> remaining (r1\<lparr>tmpbuf := tmpbuf r1 @ [b]\<rparr>)"
        by simp
      with le1 show ?thesis
        by (simp add: remaining_def)
    next
      case True
      show ?thesis
      proof (cases "b2 = DQ \<and> e2 = None")
        case False
        with True None rd1 rd2 es "1.prems" have "r' = r3"
          using parseQuotedLoop_close [of r r1 b2 e2 r2 b3 e3 r3] by auto
        with le1 le2 le3 show ?thesis
          by simp
      next
        case dq: True
        with True None rd1 rd2 "1.prems"
        have "parseQuotedLoop (r2\<lparr>tmpbuf := tmpbuf r2 @ [DQ]\<rparr>) = (c, t, e, r')"
          using parseQuotedLoop_escaped [of r r1 r2] by simp
        with "1.IH"(1) [of b "(e1, r1)" e1 r1 b2 "(e2, r2)" e2 r2] rd1 rd2 None True dq
        have "remaining r' \<le> remaining (r2\<lparr>tmpbuf := tmpbuf r2 @ [DQ]\<rparr>)"
          by simp
        with le1 le2 show ?thesis
          by (simp add: remaining_def)
      qed
    qed
  qed
qed

lemma unquotedLoop_remaining:
  "unquotedLoop ts l b e r = (ts', l', b', e', r') \<Longrightarrow> remaining r' \<le> remaining r"
proof (induction ts l b e r rule: unquotedLoop.induct)
  case (1 ts l b e r)
  show ?case
  proof (cases "e = None \<and> b \<noteq> LF \<and> b \<noteq> FieldDelim (Config r)")
    case False
    with "1.prems" show ?thesis
      using unquotedLoop_stop [of e b r ts l] by auto
  next
    case True
    define ts1 where "ts1 = (if TrimSpaces (Config r)
                   then (if b = SP \<or> b = CR then ts + 1 else 0) else ts)"
    define r1 where "r1 = r\<lparr>tmpbuf := tmpbuf r @ [b]\<rparr>"
    obtain b2 e2 r2 where rd: "brReadByte r1 = (b2, e2, r2)"
      by (cases "brReadByte r1") auto
    from True "1.prems" have "unquotedLoop ts1 b b2 e2 r2 = (ts', l', b', e', r')"
      using unquotedLoop_step [OF _ _ rd [unfolded r1_def], of ts l] by (simp add: ts1_def)
    with "1.IH" [of ts1 r1 b2 "(e2, r2)" e2 r2] True rd
    have "remaining r' \<le> remaining r2"
      by (simp add: ts1_def r1_def)
    with brReadByte_remaining_le [OF rd] show ?thesis
      by (simp add: r1_def remaining_def)
  qed
qed

text \<open>A cell that is returned without an error has taken at least one byte.\<close>

lemma parseCell_consumes:
  assumes "parseCell r = (c, t, None, r')"
  shows "remaining r' < remaining r"
proof -
  obtain b0 e0 r1 where rd: "brReadByte (r\<lparr>tmpbuf := []\<rparr>) = (b0, e0, r1)"
    by (cases "brReadByte (r\<lparr>tmpbuf := []\<rparr>)") auto
  obtain b e r2 where
    es: "(if TrimSpaces (Config r1) then eatSpaces b0 e0 r1 else (b0, e0, r1)) = (b, e, r2)"
    by (cases "if TrimSpaces (Config r1) then eatSpaces b0 e0 r1 else (b0, e0, r1)") auto
  obtain ts l b' e' r3 where ul: "unquotedLoop 0 0 b e r2 = (ts, l, b', e', r3)"
    by (cases "unquotedLoop 0 0 b e r2") auto
  have le2: "remaining r2 \<le> remaining r1"
    using es eatSpaces_remaining [of b0 e0 r1 b e r2] by (auto split: if_splits)
  have le3: "remaining r3 \<le> remaining r2"
    using ul by (rule unquotedLoop_remaining)
  have le1: "remaining r1 \<le> remaining r"
    using brReadByte_remaining_le [OF rd] by (simp add: remaining_def)
  show ?thesis
  proof (cases e0)
    case None
    then have lt: "remaining r1 < remaining r"
      using brReadByte_ok_remaining [of "r\<lparr>tmpbuf := []\<rparr>" b0 r1] rd
      by (simp add: remaining_def)
    have "remaining r' \<le> remaining r2"
    proof (cases "b = DQ \<and> e = None")
      case True
      with assms rd es have "parseQuotedLoop (r2\<lparr>tmpbuf := []\<rparr>) = (c, t, None, r')"
        by (simp add: parseCell_def parseQuoted_def)
      then have "remaining r' \<le> remaining (r2\<lparr>tmpbuf := []\<rparr>)"
        by (rule parseQuotedLoop_remaining)
      then show ?thesis
        by (simp add: remaining_def)
    next
      case False
      with assms rd es ul have "r' = r3"
        by (auto simp: parseCell_def Let_def split: if_splits)
      with le3 show ?thesis
        by simp
    qed
    with le2 lt show ?thesis
      by simp
  next
    case (Some x)
    then have stop: "(b, e, r2) = (b0, e0, r1)"
      using es eatSpaces_stop [of b0 e0 r1] by (auto split: if_splits)
    then have "unquotedLoop 0 0 b e r2 = (0, 0, b, e, r2)"
      using Some by (simp add: unquotedLoop_stop)
    with assms rd es stop Some show ?thesis
      by (auto simp: parseCell_def Let_def split: if_splits)
  qed
qed

text \<open>
  \<open>ReadRow\<close>: the loop over the cells of one row, with the row collected so far as
  \<open>result\<close>. A nil slice and an empty slice are both the empty list.
\<close>

function ReadRowLoop ::
  "byte list list \<Rightarrow> Reader \<Rightarrow> byte list list \<times> err option \<times> Reader" where
  "ReadRowLoop result r =
     (case parseCell r of (c, b, e, r1) \<Rightarrow>
        (case e of
           Some x \<Rightarrow>
             ((if x = EOF \<and> length result > 0 then result @ [c] else result), Some x, r1)
         | None \<Rightarrow>
             (let result' = result @ [c] in
              if b = 0 then (result', None, r1)
              else (case (if b = CR then brReadByte r1 else (b, None, r1)) of
                      (b', e', r2) \<Rightarrow>
                        (case e' of
                           Some x \<Rightarrow> ([], Some x, r2)
                         | None \<Rightarrow>
                             if b' = FieldDelim (Config r2) then ReadRowLoop result' r2
                             else if b' = LF then (result', None, r2)
                             else ([], Some (ErrExpected b'), r2))))))"
  by pat_completeness auto
termination
proof (relation "measure (\<lambda>(result, r). remaining r)")
  show "wf (measure (\<lambda>(result, r). remaining r))"
    by simp
next
  fix result result' :: "byte list list" and r r1 r2 :: Reader and c :: "byte list"
    and b b' :: byte and e e' :: "err option" and x xa xb y ya
  assume "(c, x) = parseCell r" and "(b, xa) = x" and "(e, r1) = xa" and "e = None"
    and "(b', y) = (if b = CR then brReadByte r1 else (b, None, r1))" and "(e', r2) = y"
  then have pc: "parseCell r = (c, b, None, r1)"
    and rd: "(if b = CR then brReadByte r1 else (b, None, r1)) = (b', e', r2)"
    by simp_all
  have "remaining r2 \<le> remaining r1"
    using rd brReadByte_remaining_le [of r1 b' e' r2] by (auto split: if_splits)
  with parseCell_consumes [OF pc]
  show "((result', r2), (result, r)) \<in> measure (\<lambda>(result, r). remaining r)"
    by simp
qed

declare ReadRowLoop.simps [simp del]

definition ReadRow :: "Reader \<Rightarrow> byte list list \<times> err option \<times> Reader" where
  "ReadRow r = ReadRowLoop [] r"

lemma ReadRowLoop_consumes:
  "ReadRowLoop result r = (row, None, r') \<Longrightarrow> remaining r' < remaining r"
proof (induction result r rule: ReadRowLoop.induct)
  case (1 result r)
  obtain c b e r1 where pc: "parseCell r = (c, b, e, r1)"
    by (cases "parseCell r") auto
  obtain b' e' r2 where
    rd: "(if b = CR then brReadByte r1 else (b, None, r1)) = (b', e', r2)"
    by (cases "if b = CR then brReadByte r1 else (b, None, r1)") auto
  have le: "remaining r2 \<le> remaining r1"
    using rd brReadByte_remaining_le [of r1 b' e' r2] by (auto split: if_splits)
  show ?case
  proof (cases e)
    case (Some x)
    with "1.prems" pc show ?thesis
      by (simp add: ReadRowLoop.simps [of result r])
  next
    case None
    note lt = parseCell_consumes [OF pc [unfolded None]]
    show ?thesis
    proof (cases "b \<noteq> 0 \<and> e' = None \<and> b' = FieldDelim (Config r2)")
      case True
      with "1.prems" pc rd None have "ReadRowLoop (result @ [c]) r2 = (row, None, r')"
        by (simp add: ReadRowLoop.simps [of result r])
      with "1.IH" [of c "(b, e, r1)" b "(e, r1)" e r1 "result @ [c]" b' "(e', r2)" e' r2]
        pc rd None True
      have "remaining r' < remaining r2"
        by simp
      with le lt show ?thesis
        by simp
    next
      case False
      with "1.prems" pc rd None have "r' = r1 \<or> r' = r2"
        by (auto simp: ReadRowLoop.simps [of result r] Let_def split: if_splits option.splits)
      with le lt show ?thesis
        by auto
    qed
  qed
qed

text \<open>The method \<open>(*Reader).ReadAll\<close>: rows until \<open>io.EOF\<close>; any other error discards them.\<close>

function ReadAllLoop ::
  "byte list list list \<Rightarrow> Reader \<Rightarrow> byte list list list \<times> err option \<times> Reader" where
  "ReadAllLoop rows r =
     (case ReadRow r of (row, e, r1) \<Rightarrow>
        (case e of
           Some x \<Rightarrow> if x = EOF then (rows, None, r1) else ([], Some x, r1)
         | None \<Rightarrow> ReadAllLoop (rows @ [row]) r1))"
  by pat_completeness auto
termination
proof (relation "measure (\<lambda>(rows, r). remaining r)")
  show "wf (measure (\<lambda>(rows, r). remaining r))"
    by simp
next
  fix rows :: "byte list list list" and r r1 :: Reader and row :: "byte list list"
    and e :: "err option" and x
  assume "(row, x) = ReadRow r" and "(e, r1) = x" and "e = None"
  then have "ReadRowLoop [] r = (row, None, r1)"
    by (simp add: ReadRow_def)
  then have "remaining r1 < remaining r"
    by (rule ReadRowLoop_consumes)
  then show "((rows @ [row], r1), (rows, r)) \<in> measure (\<lambda>(rows, r). remaining r)"
    by simp
qed

declare ReadAllLoop.simps [simp del]

definition Reader_ReadAll :: "Reader \<Rightarrow> byte list list list \<times> err option \<times> Reader" where
  "Reader_ReadAll r = ReadAllLoop [] r"

text \<open>
  The package function \<open>ReadAll(r io.Reader)\<close>: a fresh reader with the default
  configuration over a buffered reader of \<open>r\<close>; the caller sees the rows and the error.
\<close>

definition ReadAll :: "ByteReader \<Rightarrow> byte list list list \<times> err option" where
  "ReadAll src = (case Reader_ReadAll (NewReader src) of (rows, e, r) \<Rightarrow> (rows, e))"

section \<open>Readers over given bytes\<close>

text \<open>
  \<open>feed r xs\<close> is the reader \<open>r\<close> with \<open>xs\<close> as the bytes its source still holds;
  every reader is \<open>feed r (pending (br r))\<close>. \<open>trailCount trim ts xs\<close> is the value of
  \<open>trailing_spaces\<close> after the unquoted loop has copied \<open>xs\<close>, starting from \<open>ts\<close>.
\<close>

definition feed :: "Reader \<Rightarrow> byte list \<Rightarrow> Reader" where
  "feed r xs = r\<lparr>br := (br r)\<lparr>pending := xs\<rparr>\<rparr>"

fun trailCount :: "bool \<Rightarrow> nat \<Rightarrow> byte list \<Rightarrow> nat" where
  "trailCount trim ts [] = ts"
| "trailCount trim ts (b # xs) =
     trailCount trim (if trim then (if b = SP \<or> b = CR then ts + 1 else 0) else ts) xs"

text \<open>
  The bytes after an opening double-quote hold no closing double-quote when every
  double-quote among them is followed by another one, which it escapes.
\<close>

fun unclosedQuoted :: "byte list \<Rightarrow> bool" where
  "unclosedQuoted [] = True"
| "unclosedQuoted [b] = (b \<noteq> DQ)"
| "unclosedQuoted (b # b' # bs) =
     (if b = DQ then b' = DQ \<and> unclosedQuoted bs else unclosedQuoted (b' # bs))"

text \<open>
  For the tests of csv_test.go: the bytes of an ASCII string literal, and the helper
  \<open>str2Reader\<close> of the test file.
\<close>

definition bytes :: "string \<Rightarrow> byte list" where
  "bytes s = map (\<lambda>c. of_nat (of_char c)) s"

definition str2Reader :: "byte list \<Rightarrow> Reader" where
  "str2Reader s = NewReader (stringReader s)"

section \<open>The writer on a sink that never fails\<close>

lemma wrote_more_simps [simp]:
  "Writer.Config (wrote_more w bs) = Writer.Config w"
  "room (out (wrote_more w bs)) = room (out w)"
  "wrote (out (wrote_more w bs)) = wrote (out w) @ bs"
  "wrote_more (wrote_more w bs) cs = wrote_more w (bs @ cs)"
  "wrote_more w [] = w"
  by (simp_all add: wrote_more_def)

lemma needsQuotes_wrote_more [simp]: "needsQuotes (wrote_more w bs) s = needsQuotes w s"
  by (simp add: needsQuotes_def)

lemma cellBytes_wrote_more [simp]: "cellBytes (wrote_more w bs) s = cellBytes w s"
  by (simp add: cellBytes_def)

lemma cellsBytes_wrote_more [simp]: "cellsBytes (wrote_more w bs) i cells = cellsBytes w i cells"
  by (induction cells arbitrary: i) simp_all

lemma WriteByte_unbounded:
  "room s = None \<Longrightarrow> WriteByte b s = (None, s\<lparr>wrote := wrote s @ [b]\<rparr>)"
  by (simp add: WriteByte_def)

lemma WriteString_unbounded:
  "room s = None \<Longrightarrow> WriteString bs s = (None, s\<lparr>wrote := wrote s @ bs\<rparr>)"
  by (induction bs arbitrary: s) (simp_all add: WriteByte_unbounded)

lemma writeQuotedLoop_unbounded:
  "room s = None \<Longrightarrow> writeQuotedLoop cell s = (None, s\<lparr>wrote := wrote s @ quoteDoubled cell\<rparr>)"
  by (induction cell arbitrary: s) (simp_all add: WriteByte_unbounded)

lemma writeCell_unbounded:
  "room (out w) = None \<Longrightarrow> writeCell w cell = (None, wrote_more w (cellBytes w cell))"
  by (simp add: writeCell_def cellBytes_def wrote_more_def WriteByte_unbounded
      WriteString_unbounded writeQuotedLoop_unbounded)

lemma writeRowLoop_unbounded:
  "room (out w) = None \<Longrightarrow> writeRowLoop i cells w = (None, wrote_more w (cellsBytes w i cells))"
proof (induction cells arbitrary: i w)
  case Nil
  then show ?case by simp
next
  case (Cons cell cells)
  have w1: "w\<lparr>out := (out w)\<lparr>wrote := wrote (out w) @ [FieldDelim (Writer.Config w)]\<rparr>\<rparr>
            = wrote_more w [FieldDelim (Writer.Config w)]"
    by (simp add: wrote_more_def)
  from Cons.prems show ?case
    by (simp add: WriteByte_unbounded writeCell_unbounded Cons.IH w1)
qed

lemma WriteRow_unbounded:
  "room (out w) = None \<Longrightarrow> WriteRow w row = (None, wrote_more w (rowBytes w row))"
  by (simp add: WriteRow_def writeRowLoop_unbounded WriteByte_unbounded Flush_def rowBytes_def)

lemma Writer_WriteAll_unbounded:
  "room (out w) = None \<Longrightarrow>
   Writer_WriteAll w rows = (None, wrote_more w (concat (map (rowBytes w) rows)))"
proof (induction rows arbitrary: w)
  case Nil
  then show ?case by simp
next
  case (Cons row rows)
  have "rowBytes (wrote_more w (rowBytes w row)) = rowBytes w"
    by (rule ext) (simp add: rowBytes_def)
  with Cons.prems show ?case
    by (simp add: WriteRow_unbounded Cons.IH)
qed

lemma count_quoteDoubled: "count_list (quoteDoubled cell) DQ = 2 * count_list cell DQ"
  by (induction cell) simp_all

section \<open>The scanning loops on given bytes\<close>

lemma feed_simps [simp]:
  "Config (feed r xs) = Config r"
  "tmpbuf (feed r xs) = tmpbuf r"
  "pending (br (feed r xs)) = xs"
  "fin (br (feed r xs)) = fin (br r)"
  "feed (feed r xs) ys = feed r ys"
  "(feed r xs)\<lparr>tmpbuf := t\<rparr> = feed (r\<lparr>tmpbuf := t\<rparr>) xs"
  by (simp_all add: feed_def)

lemma feed_pending [simp]: "feed r (pending (br r)) = r"
  by (simp add: feed_def)

lemma brReadByte_feed_Cons [simp]: "brReadByte (feed r (b # xs)) = (b, None, feed r xs)"
  by (simp add: brReadByte_def ReadByte_def feed_def)

lemma brReadByte_feed_Nil [simp]: "brReadByte (feed r []) = (0, Some (fin (br r)), feed r [])"
  by (simp add: brReadByte_def ReadByte_def feed_def)

text \<open>A run of spaces is skipped up to the first byte that is not a space.\<close>

lemma eatSpaces_skip:
  assumes "tail = [] \<or> hd tail \<noteq> SP"
  shows "(case brReadByte (feed r (replicate k SP @ tail)) of (b, e, r1) \<Rightarrow> eatSpaces b e r1)
         = brReadByte (feed r tail)"
proof (induction k)
  case 0
  show ?case
  proof (cases tail)
    case Nil
    then show ?thesis by (simp add: eatSpaces_stop)
  next
    case (Cons t ts)
    with assms show ?thesis by (simp add: eatSpaces_stop)
  qed
next
  case (Suc k)
  obtain b e r1 where rd: "brReadByte (feed r (replicate k SP @ tail)) = (b, e, r1)"
    by (cases "brReadByte (feed r (replicate k SP @ tail))") auto
  with Suc show ?case
    by (simp add: eatSpaces_space [OF rd])
qed

lemma parseQuotedLoop_body:
  assumes "tail = [] \<or> hd tail \<noteq> DQ"
  shows "parseQuotedLoop (feed r (quoteDoubled c @ DQ # tail)) =
         (case brReadByte (feed (r\<lparr>tmpbuf := tmpbuf r @ c\<rparr>) tail) of (b, e, r1) \<Rightarrow>
            case eatSpaces b e r1 of (b3, e3, r3) \<Rightarrow> (tmpbuf r3, b3, None, r3))"
proof (induction c arbitrary: r)
  case Nil
  obtain b e r1 where rd: "brReadByte (feed r tail) = (b, e, r1)"
    by (cases "brReadByte (feed r tail)") auto
  obtain b3 e3 r3 where es: "eatSpaces b e r1 = (b3, e3, r3)"
    by (cases "eatSpaces b e r1") auto
  have ne: "b \<noteq> DQ \<or> e \<noteq> None"
    using assms rd by (cases tail) auto
  have "parseQuotedLoop (feed r (DQ # tail)) = (tmpbuf r3, b3, None, r3)"
    by (rule parseQuotedLoop_close [OF _ rd ne es]) simp
  with rd es show ?case by simp
next
  case (Cons x c)
  show ?case
  proof (cases "x = DQ")
    case True
    have "parseQuotedLoop (feed r (DQ # DQ # quoteDoubled c @ DQ # tail)) =
          parseQuotedLoop ((feed r (quoteDoubled c @ DQ # tail))
             \<lparr>tmpbuf := tmpbuf (feed r (quoteDoubled c @ DQ # tail)) @ [DQ]\<rparr>)"
      by (rule parseQuotedLoop_escaped [of _ "feed r (DQ # quoteDoubled c @ DQ # tail)"]) simp_all
    with True Cons.IH [of "r\<lparr>tmpbuf := tmpbuf r @ [DQ]\<rparr>"] show ?thesis
      by simp
  next
    case False
    have "parseQuotedLoop (feed r (x # quoteDoubled c @ DQ # tail)) =
          parseQuotedLoop ((feed r (quoteDoubled c @ DQ # tail))
             \<lparr>tmpbuf := tmpbuf (feed r (quoteDoubled c @ DQ # tail)) @ [x]\<rparr>)"
      by (rule parseQuotedLoop_copy) (simp_all add: False)
    with False Cons.IH [of "r\<lparr>tmpbuf := tmpbuf r @ [x]\<rparr>"] show ?thesis
      by simp
  qed
qed

lemma parseQuotedLoop_unterminated:
  "parseQuotedLoop (feed r (quoteDoubled c)) =
     ([], 0, Some (if fin (br r) = EOF then ErrUnexpectedEOF else fin (br r)),
      feed (r\<lparr>tmpbuf := tmpbuf r @ c\<rparr>) [])"
proof (induction c arbitrary: r)
  case Nil
  have "parseQuotedLoop (feed r []) =
        ([], 0, Some (if fin (br r) = EOF then ErrUnexpectedEOF else fin (br r)), feed r [])"
    by (rule parseQuotedLoop_err) simp
  then show ?case by simp
next
  case (Cons x c)
  show ?case
  proof (cases "x = DQ")
    case True
    have "parseQuotedLoop (feed r (DQ # DQ # quoteDoubled c)) =
          parseQuotedLoop ((feed r (quoteDoubled c))
             \<lparr>tmpbuf := tmpbuf (feed r (quoteDoubled c)) @ [DQ]\<rparr>)"
      by (rule parseQuotedLoop_escaped [of _ "feed r (DQ # quoteDoubled c)"]) simp_all
    with True Cons.IH [of "r\<lparr>tmpbuf := tmpbuf r @ [DQ]\<rparr>"] show ?thesis
      by simp
  next
    case False
    have "parseQuotedLoop (feed r (x # quoteDoubled c)) =
          parseQuotedLoop ((feed r (quoteDoubled c))
             \<lparr>tmpbuf := tmpbuf (feed r (quoteDoubled c)) @ [x]\<rparr>)"
      by (rule parseQuotedLoop_copy) (simp_all add: False)
    with False Cons.IH [of "r\<lparr>tmpbuf := tmpbuf r @ [x]\<rparr>"] show ?thesis
      by simp
  qed
qed

text \<open>The unquoted loop copies bytes up to a newline, a delimiter or the end.\<close>

lemma unquotedLoop_run:
  assumes "LF \<notin> set xs" and "FieldDelim (Config r) \<notin> set xs"
    and "tail = [] \<or> hd tail = LF \<or> hd tail = FieldDelim (Config r)"
  shows "(case brReadByte (feed r (xs @ tail)) of (b, e, r1) \<Rightarrow> unquotedLoop ts l b e r1) =
         (case brReadByte (feed (r\<lparr>tmpbuf := tmpbuf r @ xs\<rparr>) tail) of (b, e, r1) \<Rightarrow>
            (trailCount (TrimSpaces (Config r)) ts xs, last (l # xs), b, e, r1))"
  using assms
proof (induction xs arbitrary: r ts l)
  case Nil
  then show ?case
    by (cases tail) (simp_all add: unquotedLoop_stop)
next
  case (Cons x xs)
  obtain b e r1 where rd: "brReadByte (feed (r\<lparr>tmpbuf := tmpbuf r @ [x]\<rparr>) (xs @ tail)) = (b, e, r1)"
    by (cases "brReadByte (feed (r\<lparr>tmpbuf := tmpbuf r @ [x]\<rparr>) (xs @ tail))") auto
  have x: "x \<noteq> LF" "x \<noteq> FieldDelim (Config (feed r (xs @ tail)))"
    using Cons.prems by auto
  have rd': "brReadByte ((feed r (xs @ tail))\<lparr>tmpbuf := tmpbuf (feed r (xs @ tail)) @ [x]\<rparr>)
             = (b, e, r1)"
    using rd by simp
  have step: "unquotedLoop ts l x None (feed r (xs @ tail)) =
        unquotedLoop (if TrimSpaces (Config r) then (if x = SP \<or> x = CR then ts + 1 else 0) else ts)
          x b e r1"
    using unquotedLoop_step [OF x rd', of ts l] by simp
  have "(case brReadByte (feed (r\<lparr>tmpbuf := tmpbuf r @ [x]\<rparr>) (xs @ tail)) of
           (b, e, r1) \<Rightarrow> unquotedLoop (if TrimSpaces (Config r) then (if x = SP \<or> x = CR then ts + 1 else 0) else ts) x b e r1) =
        (case brReadByte (feed (r\<lparr>tmpbuf := tmpbuf r @ [x], tmpbuf := tmpbuf (r\<lparr>tmpbuf := tmpbuf r @ [x]\<rparr>) @ xs\<rparr>) tail) of
           (b, e, r1) \<Rightarrow> (trailCount (TrimSpaces (Config r)) (if TrimSpaces (Config r) then (if x = SP \<or> x = CR then ts + 1 else 0) else ts) xs, last (x # xs), b, e, r1))"
    using Cons.IH [of "r\<lparr>tmpbuf := tmpbuf r @ [x]\<rparr>" "(if TrimSpaces (Config r) then (if x = SP \<or> x = CR then ts + 1 else 0) else ts)" x] Cons.prems
    by simp
  with step rd show ?case
    by simp
qed

lemma trailCount_off [simp]: "trailCount False ts xs = ts"
  by (induction xs arbitrary: ts) simp_all

lemma trailCount_snoc:
  "trailCount True ts (xs @ [x]) = (if x = SP \<or> x = CR then trailCount True ts xs + 1 else 0)"
  by (induction xs arbitrary: ts) simp_all

lemma trailCount_le: "trailCount trim ts xs \<le> ts + length xs"
proof (induction xs arbitrary: ts)
  case Nil
  show ?case by simp
next
  case (Cons x xs)
  show ?case
    using Cons.IH [of "if trim then (if x = SP \<or> x = CR then ts + 1 else 0) else ts"]
    by (auto split: if_splits)
qed

text \<open>The start of \<open>parseCell\<close>: with trimming, a run of leading spaces is dropped.\<close>

lemma parseCell_start:
  assumes "if TrimSpaces (Config r) then tail = [] \<or> hd tail \<noteq> SP else k = 0"
  shows "parseCell (feed r (replicate k SP @ tail)) =
     (case brReadByte (feed (r\<lparr>tmpbuf := []\<rparr>) tail) of (b, e, r2) \<Rightarrow>
          if e = Some EOF then ([], 0, e, r2)
          else if b = DQ \<and> e = None then parseQuoted r2
          else (case unquotedLoop 0 0 b e r2 of (trailing_spaces, last_b, b', e', r3) \<Rightarrow>
                  if e' \<noteq> None \<and> e' \<noteq> Some EOF then ([], 0, e', r3)
                  else (let trailing_spaces' =
                              (if last_b = CR \<and> b' = LF \<and> trailing_spaces = 0
                               then 1 else trailing_spaces);
                            s = tmpbuf r3
                        in if length s < trailing_spaces'
                           then ([], 0, Some PanicSliceBounds, r3)
                           else (take (length s - trailing_spaces') s, b', None, r3))))"
proof -
  obtain b0 e0 r1 where
    rd: "brReadByte (feed (r\<lparr>tmpbuf := []\<rparr>) (replicate k SP @ tail)) = (b0, e0, r1)"
    by (cases "brReadByte (feed (r\<lparr>tmpbuf := []\<rparr>) (replicate k SP @ tail))") auto
  have cfg: "Config r1 = Config r"
    using rd by (auto simp: brReadByte_def ReadByte_def feed_def split: list.splits)
  have "(if TrimSpaces (Config r1) then eatSpaces b0 e0 r1 else (b0, e0, r1))
        = brReadByte (feed (r\<lparr>tmpbuf := []\<rparr>) tail)"
  proof (cases "TrimSpaces (Config r)")
    case True
    then show ?thesis
      using eatSpaces_skip [of tail "r\<lparr>tmpbuf := []\<rparr>" k] assms rd cfg by simp
  next
    case False
    with assms have "k = 0" by simp
    with False rd cfg show ?thesis by simp
  qed
  then show ?thesis
    unfolding parseCell_def using rd by simp
qed

section \<open>Cells\<close>

lemma parseCell_quoted:
  assumes "if TrimSpaces (Config r) then True else k0 = 0"
    and "tail = [] \<or> hd tail \<noteq> SP" and "k = 0 \<longrightarrow> tail = [] \<or> hd tail \<noteq> DQ"
  shows "parseCell (feed r (replicate k0 SP @ DQ # quoteDoubled c @ DQ # replicate k SP @ tail)) =
         (c, (if tail = [] then 0 else hd tail), None, feed (r\<lparr>tmpbuf := c\<rparr>) (tl tail))"
proof -
  have t1: "replicate k SP @ tail = [] \<or> hd (replicate k SP @ tail) \<noteq> DQ"
    using assms(3) by (cases k) auto
  have "parseCell (feed r (replicate k0 SP @ DQ # quoteDoubled c @ DQ # replicate k SP @ tail)) =
        parseQuoted (feed (r\<lparr>tmpbuf := []\<rparr>) (quoteDoubled c @ DQ # replicate k SP @ tail))"
    using assms(1) by (subst parseCell_start) (auto split: if_splits)
  also have "\<dots> = (case brReadByte (feed (r\<lparr>tmpbuf := c\<rparr>) (replicate k SP @ tail)) of
                     (b, e, r1) \<Rightarrow> case eatSpaces b e r1 of (b3, e3, r3) \<Rightarrow> (tmpbuf r3, b3, None, r3))"
    using parseQuotedLoop_body [OF t1, of "r\<lparr>tmpbuf := []\<rparr>" c] by (simp add: parseQuoted_def)
  also have "\<dots> = (case brReadByte (feed (r\<lparr>tmpbuf := c\<rparr>) tail) of
                     (b3, e3, r3) \<Rightarrow> (tmpbuf r3, b3, None, r3))"
    using eatSpaces_skip [OF assms(2), of "r\<lparr>tmpbuf := c\<rparr>" k] by (simp split: prod.splits)
  also have "\<dots> = (c, (if tail = [] then 0 else hd tail), None, feed (r\<lparr>tmpbuf := c\<rparr>) (tl tail))"
    by (cases tail) simp_all
  finally show ?thesis .
qed

lemma parseCell_unterminated:
  assumes "if TrimSpaces (Config r) then True else k0 = 0"
  shows "parseCell (feed r (replicate k0 SP @ DQ # quoteDoubled c)) =
         ([], 0, Some (if fin (br r) = EOF then ErrUnexpectedEOF else fin (br r)),
          feed (r\<lparr>tmpbuf := c\<rparr>) [])"
proof -
  have "parseCell (feed r (replicate k0 SP @ DQ # quoteDoubled c)) =
        parseQuoted (feed (r\<lparr>tmpbuf := []\<rparr>) (quoteDoubled c))"
    using assms by (subst parseCell_start) (auto split: if_splits)
  then show ?thesis
    using parseQuotedLoop_unterminated [of "r\<lparr>tmpbuf := []\<rparr>" c] by (simp add: parseQuoted_def)
qed

lemma parseCell_unquoted:
  assumes "if TrimSpaces (Config r) then xs = [] \<or> hd xs \<noteq> SP else k0 = 0"
    and "LF \<notin> set xs" and "FieldDelim (Config r) \<notin> set xs"
    and "t = LF \<or> t = FieldDelim (Config r)"
    and "xs = [] \<or> hd xs \<noteq> DQ" and "t \<noteq> DQ" and "t \<noteq> SP"
  shows "parseCell (feed r (replicate k0 SP @ xs @ t # rest)) =
         (let ts = trailCount (TrimSpaces (Config r)) 0 xs;
              ts' = (if xs \<noteq> [] \<and> last xs = CR \<and> t = LF \<and> ts = 0 then 1 else ts)
          in (take (length xs - ts') xs, t, None, feed (r\<lparr>tmpbuf := xs\<rparr>) rest))"
proof -
  let ?r0 = "r\<lparr>tmpbuf := []\<rparr>"
  have hd1: "hd (xs @ t # rest) \<noteq> DQ" "hd (xs @ t # rest) \<noteq> SP \<or> \<not> TrimSpaces (Config r)"
    using assms by (cases xs; auto split: if_splits)+
  have start: "if TrimSpaces (Config r) then xs @ t # rest = [] \<or> hd (xs @ t # rest) \<noteq> SP else k0 = 0"
    using assms(1) hd1(2) by (auto split: if_splits)
  have run: "(case brReadByte (feed ?r0 (xs @ t # rest)) of (b, e, r1) \<Rightarrow> unquotedLoop 0 0 b e r1) =
         (trailCount (TrimSpaces (Config r)) 0 xs, last (0 # xs), t, None, feed (r\<lparr>tmpbuf := xs\<rparr>) rest)"
    using unquotedLoop_run [of xs ?r0 "t # rest" 0 0] assms(2,3,4) by auto
  obtain b e r2 where rd: "brReadByte (feed ?r0 (xs @ t # rest)) = (b, e, r2)"
    by (cases "brReadByte (feed ?r0 (xs @ t # rest))") auto
  have be: "e = None" "b = hd (xs @ t # rest)"
    using rd by (cases xs; simp)+
  have ul: "unquotedLoop 0 0 b e r2 =
         (trailCount (TrimSpaces (Config r)) 0 xs, last (0 # xs), t, None, feed (r\<lparr>tmpbuf := xs\<rparr>) rest)"
    using run rd by simp
  have le: "trailCount (TrimSpaces (Config r)) 0 xs \<le> length xs"
    using trailCount_le [of "TrimSpaces (Config r)" 0 xs] by simp
  have "parseCell (feed r (replicate k0 SP @ (xs @ t # rest))) =
     (let ts = trailCount (TrimSpaces (Config r)) 0 xs;
          ts' = (if last (0 # xs) = CR \<and> t = LF \<and> ts = 0 then 1 else ts)
      in if length xs < ts' then ([], 0, Some PanicSliceBounds, feed (r\<lparr>tmpbuf := xs\<rparr>) rest)
         else (take (length xs - ts') xs, t, None, feed (r\<lparr>tmpbuf := xs\<rparr>) rest))"
    using rd be hd1 ul by (subst parseCell_start [OF start]) (simp add: Let_def)
  moreover have "last (0 # xs) = CR \<longleftrightarrow> xs \<noteq> [] \<and> last xs = CR"
    by (cases xs) auto
  moreover have "xs \<noteq> [] \<Longrightarrow> 1 \<le> length xs"
    by (cases xs) auto
  ultimately show ?thesis
    using le by (auto simp: Let_def)
qed

section \<open>The slice of the scratch buffer is in range\<close>

lemma brReadByte_fin:
  "brReadByte r = (b, e, r') \<Longrightarrow>
   fin (br r') = fin (br r) \<and> tmpbuf r' = tmpbuf r \<and> (e = None \<or> e = Some (fin (br r)))"
  by (auto simp: brReadByte_def ReadByte_def split: list.splits)

lemma eatSpaces_fin:
  "eatSpaces b e r = (b', e', r') \<Longrightarrow> e = None \<or> e = Some (fin (br r)) \<Longrightarrow>
   fin (br r') = fin (br r) \<and> (e' = None \<or> e' = Some (fin (br r)))"
proof (induction b e r rule: eatSpaces.induct)
  case (1 b e r)
  show ?case
  proof (cases "b = SP \<and> e = None")
    case True
    obtain b1 e1 r1 where rd: "brReadByte r = (b1, e1, r1)"
      by (cases "brReadByte r") auto
    from True "1.prems" have es: "eatSpaces b1 e1 r1 = (b', e', r')"
      by (simp add: eatSpaces_space [OF rd])
    note f = brReadByte_fin [OF rd]
    from "1.IH" [OF True rd [symmetric] refl es] f show ?thesis
      by auto
  next
    case False
    with "1.prems" show ?thesis
      by (auto simp: eatSpaces_stop)
  qed
qed

lemma parseQuotedLoop_error_kind:
  "parseQuotedLoop r = (c, t, Some x, r') \<Longrightarrow>
   x = fin (br r) \<or> (x = ErrUnexpectedEOF \<and> fin (br r) = EOF)"
proof (induction r rule: parseQuotedLoop.induct)
  case (1 r)
  obtain b e1 r1 where rd1: "brReadByte r = (b, e1, r1)"
    by (cases "brReadByte r") auto
  obtain b2 e2 r2 where rd2: "brReadByte r1 = (b2, e2, r2)"
    by (cases "brReadByte r1") auto
  obtain b3 e3 r3 where es: "eatSpaces b2 e2 r2 = (b3, e3, r3)"
    by (cases "eatSpaces b2 e2 r2") auto
  note f1 = brReadByte_fin [OF rd1]
  note f2 = brReadByte_fin [OF rd2]
  show ?case
  proof (cases e1)
    case (Some y)
    with "1.prems" rd1 f1 show ?thesis
      by (auto simp: parseQuotedLoop_err split: if_splits)
  next
    case None
    show ?thesis
    proof (cases "b = DQ")
      case False
      with None rd1 "1.prems"
      have "parseQuotedLoop (r1\<lparr>tmpbuf := tmpbuf r1 @ [b]\<rparr>) = (c, t, Some x, r')"
        by (simp add: parseQuotedLoop_copy)
      with "1.IH"(2) [of b "(e1, r1)" e1 r1] rd1 None False f1 show ?thesis
        by simp
    next
      case True
      show ?thesis
      proof (cases "b2 = DQ \<and> e2 = None")
        case False
        with True None rd1 rd2 es "1.prems" have "False"
          using parseQuotedLoop_close [of r r1 b2 e2 r2 b3 e3 r3] by auto
        then show ?thesis ..
      next
        case dq: True
        with True None rd1 rd2 "1.prems"
        have "parseQuotedLoop (r2\<lparr>tmpbuf := tmpbuf r2 @ [DQ]\<rparr>) = (c, t, Some x, r')"
          using parseQuotedLoop_escaped [of r r1 r2] by simp
        with "1.IH"(1) [of b "(e1, r1)" e1 r1 b2 "(e2, r2)" e2 r2] rd1 rd2 None True dq f1 f2
        show ?thesis
          by simp
      qed
    qed
  qed
qed

lemma unquotedLoop_bounds:
  "unquotedLoop ts l b e r = (ts', l', b', e', r') \<Longrightarrow>
   e = None \<or> e = Some (fin (br r)) \<Longrightarrow> ts \<le> length (tmpbuf r) \<Longrightarrow>
   l = CR \<longrightarrow> tmpbuf r \<noteq> [] \<Longrightarrow>
   (e' = None \<or> e' = Some (fin (br r))) \<and> ts' \<le> length (tmpbuf r') \<and>
   (l' = CR \<longrightarrow> tmpbuf r' \<noteq> [])"
proof (induction ts l b e r rule: unquotedLoop.induct)
  case (1 ts l b e r)
  show ?case
  proof (cases "e = None \<and> b \<noteq> LF \<and> b \<noteq> FieldDelim (Config r)")
    case False
    with "1.prems" show ?thesis
      using unquotedLoop_stop [of e b r ts l] by auto
  next
    case True
    define ts1 where "ts1 = (if TrimSpaces (Config r)
                   then (if b = SP \<or> b = CR then ts + 1 else 0) else ts)"
    define r1 where "r1 = r\<lparr>tmpbuf := tmpbuf r @ [b]\<rparr>"
    obtain b2 e2 r2 where rd: "brReadByte r1 = (b2, e2, r2)"
      by (cases "brReadByte r1") auto
    note f = brReadByte_fin [OF rd]
    from True "1.prems"(1) have ul: "unquotedLoop ts1 b b2 e2 r2 = (ts', l', b', e', r')"
      using unquotedLoop_step [OF _ _ rd [unfolded r1_def], of ts l] by (simp add: ts1_def)
    have "ts1 \<le> length (tmpbuf r2)" "b = CR \<longrightarrow> tmpbuf r2 \<noteq> []"
      "e2 = None \<or> e2 = Some (fin (br r2))" "fin (br r2) = fin (br r)"
      using f "1.prems"(3) by (auto simp: ts1_def r1_def)
    with "1.IH" [OF True ts1_def r1_def rd [symmetric] refl ul] show ?thesis
      by auto
  qed
qed

lemma parseCell_no_panic:
  assumes "fin (br r) \<noteq> PanicSliceBounds"
  shows "parseCell r \<noteq> (c, t, Some PanicSliceBounds, r')"
proof
  assume pc: "parseCell r = (c, t, Some PanicSliceBounds, r')"
  obtain b0 e0 r1 where rd: "brReadByte (r\<lparr>tmpbuf := []\<rparr>) = (b0, e0, r1)"
    by (cases "brReadByte (r\<lparr>tmpbuf := []\<rparr>)") auto
  obtain b e r2 where
    es: "(if TrimSpaces (Config r1) then eatSpaces b0 e0 r1 else (b0, e0, r1)) = (b, e, r2)"
    by (cases "if TrimSpaces (Config r1) then eatSpaces b0 e0 r1 else (b0, e0, r1)") auto
  obtain ts l b' e' r3 where ul: "unquotedLoop 0 0 b e r2 = (ts, l, b', e', r3)"
    by (cases "unquotedLoop 0 0 b e r2") auto
  have f1: "fin (br r1) = fin (br r)" "e0 = None \<or> e0 = Some (fin (br r))"
    using brReadByte_fin [OF rd] by auto
  have f2: "fin (br r2) = fin (br r)" "e = None \<or> e = Some (fin (br r))"
    using es f1 eatSpaces_fin [of b0 e0 r1 b e r2] by (auto split: if_splits)
  have inv: "(e' = None \<or> e' = Some (fin (br r))) \<and> ts \<le> length (tmpbuf r3) \<and>
             (l = CR \<longrightarrow> tmpbuf r3 \<noteq> [])"
    using unquotedLoop_bounds [OF ul] f2 by simp
  show False
  proof (cases "b = DQ \<and> e = None")
    case True
    with pc rd es have "parseQuotedLoop (r2\<lparr>tmpbuf := []\<rparr>) = (c, t, Some PanicSliceBounds, r')"
      by (simp add: parseCell_def parseQuoted_def)
    from parseQuotedLoop_error_kind [OF this] f2 assms show False
      by simp
  next
    case False
    have "tmpbuf r3 \<noteq> [] \<Longrightarrow> Suc 0 \<le> length (tmpbuf r3)"
      by (cases "tmpbuf r3") auto
    with False pc rd es ul inv assms show False
      by (auto simp: parseCell_def Let_def split: if_splits)
  qed
qed

section \<open>The tests of csv_test.go, run on the model\<close>

text \<open>
  The rewrite rules that evaluate the scanner, the readers and the writer on given
  bytes, and with them the cases of the repository's own tests: the model returns
  what each test expects of the code.
\<close>

lemmas scan_simps = parseCell_def parseQuoted_def parseQuotedLoop.simps unquotedLoop.simps
  eatSpaces.simps brReadByte_def ReadByte_def NewReader_def stringReader_def DefaultConfig_def
  feed_def Let_def

lemmas read_simps = ReadAll_def Reader_ReadAll_def ReadAllLoop.simps ReadRow_def ReadRowLoop.simps
  scan_simps

lemmas write_simps = WriteAll_def NewWriter_def emptyBuffer_def WriteRow_def writeCell_def
  needsQuotes_def rune_def WriteByte_def Flush_def DefaultConfig_def

lemmas test_simps = bytes_def str2Reader_def read_simps WriteAll_def NewWriter_def
  emptyBuffer_def WriteRow_def writeCell_def needsQuotes_def rune_def WriteByte_def Flush_def

lemma TestParseCell:
  "fst (parseCell (str2Reader (bytes ''   meh ''))) = bytes ''   meh ''"
  "fst (parseCell (str2Reader (bytes ''1 2 3 ''))) = bytes ''1 2 3 ''"
  "fst (parseCell (str2Reader (bytes ''oh,''))) = bytes ''oh''"
  "fst (parseCell (str2Reader (bytes ''oh'' @ [LF] @ bytes ''no''))) = bytes ''oh''"
  "fst (parseCell (str2Reader ([DQ] @ bytes ''Hi, mom'' @ [DQ]))) = bytes ''Hi, mom''"
  "fst (parseCell (str2Reader ([DQ] @ bytes ''Hi, '' @ [DQ, DQ] @ bytes ''mr'' @ [DQ, DQ]
      @ bytes '' silly'' @ [DQ]))) = bytes ''Hi, '' @ [DQ] @ bytes ''mr'' @ [DQ] @ bytes '' silly''"
  "fst (parseCell (str2Reader ([DQ] @ bytes ''Whee'' @ [DQ] @ bytes ''  ,''))) = bytes ''Whee''"
  by (simp_all add: test_simps)

lemma TestParseCellErr:
  "parseCell (str2Reader ([DQ] @ bytes ''Unterminated'')) =
     ([], 0, Some ErrUnexpectedEOF, (str2Reader [])\<lparr>tmpbuf := bytes ''Unterminated''\<rparr>)"
  by (simp add: test_simps)

lemma TestParseCellEof:
  "parseCell (str2Reader []) = ([], 0, Some EOF, str2Reader [])"
  by (simp add: test_simps)

lemma TestReadRow:
  "fst (ReadRow (str2Reader (bytes ''one,two,three''))) = [bytes ''one'', bytes ''two'', bytes ''three'']"
  "fst (ReadRow ((str2Reader (bytes '' one,   two ,three    '' @ [LF]))
      \<lparr>Config := \<lparr>TrimSpaces = True, FieldDelim = COMMA\<rparr>\<rparr>))
     = [bytes ''one'', bytes ''two'', bytes ''three'']"
  "ReadRow ((str2Reader (bytes '',,''))\<lparr>Config := \<lparr>TrimSpaces = True, FieldDelim = COMMA\<rparr>\<rparr>)
     = ([[], [], []], Some EOF,
        (str2Reader [])\<lparr>Config := \<lparr>TrimSpaces = True, FieldDelim = COMMA\<rparr>\<rparr>)"
  "fst (ReadRow (str2Reader ([DQ] @ bytes ''foo '' @ [DQ] @ bytes '',bar''))) = [bytes ''foo '', bytes ''bar'']"
  "ReadRow ((str2Reader [])\<lparr>Config := \<lparr>TrimSpaces = True, FieldDelim = COMMA\<rparr>\<rparr>)
     = ([], Some EOF, (str2Reader [])\<lparr>Config := \<lparr>TrimSpaces = True, FieldDelim = COMMA\<rparr>\<rparr>)"
  "ReadRow ((str2Reader (bytes '' ''))\<lparr>Config := \<lparr>TrimSpaces = True, FieldDelim = COMMA\<rparr>\<rparr>)
     = ([], Some EOF, (str2Reader [])\<lparr>Config := \<lparr>TrimSpaces = True, FieldDelim = COMMA\<rparr>\<rparr>)"
  by (simp_all add: test_simps)

lemma TestReadRowMultiple:
  "ReadRow (str2Reader (bytes ''a,'' @ [DQ] @ bytes ''b'' @ [DQ, LF, DQ] @ bytes ''c'' @ [DQ] @ bytes ''  ,d''))
     = ([bytes ''a'', bytes ''b''], None,
        (str2Reader ([DQ] @ bytes ''c'' @ [DQ] @ bytes ''  ,d''))\<lparr>tmpbuf := bytes ''b''\<rparr>)"
  "ReadRow ((str2Reader ([DQ] @ bytes ''c'' @ [DQ] @ bytes ''  ,d''))\<lparr>tmpbuf := bytes ''b''\<rparr>)
     = ([bytes ''c'', bytes ''d''], None, (str2Reader [])\<lparr>tmpbuf := bytes ''d''\<rparr>)"
  "ReadRow ((str2Reader [])\<lparr>tmpbuf := bytes ''d''\<rparr>) = ([], Some EOF, str2Reader [])"
  by (simp_all add: test_simps)

lemma TestReadRowNoTrim:
  "ReadRow (str2Reader (bytes ''  a  ,  b  ,'' @ [DQ] @ bytes '' c '' @ [DQ] @ bytes '' ''))
     = ([bytes ''  a  '', bytes ''  b  '', bytes '' c ''], None, (str2Reader [])\<lparr>tmpbuf := bytes '' c ''\<rparr>)"
  by (simp add: test_simps)

lemma TestReadAllNoTrim:
  "Reader_ReadAll (str2Reader (bytes ''  a  ,  b  '' @ [CR, LF] @ bytes ''  c,  d ''))
     = ([[bytes ''  a  '', bytes ''  b  ''], [bytes ''  c'', bytes ''  d '']], None, str2Reader [])"
  by (simp add: test_simps)

lemma TestReadAllLineEnding:
  "ReadAll (stringReader (bytes ''one,two'' @ [CR, LF] @ bytes ''three,'' @ [DQ] @ bytes ''four''
      @ [DQ, CR, LF] @ bytes ''5,6''))
     = ([[bytes ''one'', bytes ''two''], [bytes ''three'', bytes ''four''], [bytes ''5'', bytes ''6'']],
        None)"
  by (simp add: test_simps)

lemma TestWriteLeadingSpace:
  "WriteAll emptyBuffer [[bytes '' A '', bytes '' ''], [bytes ''B'', bytes ''C'']] =
     (None, \<lparr>wrote = [DQ] @ bytes '' A '' @ [DQ, COMMA, DQ, SP, DQ, LF] @ bytes ''B,C'' @ [LF],
              room = None\<rparr>)"
  by (simp add: test_simps)

lemma TestSemiDelim:
  "fst (Reader_ReadAll ((str2Reader (bytes ''1;2;3'' @ [LF] @ bytes ''4;5;6''))
      \<lparr>Config := \<lparr>TrimSpaces = False, FieldDelim = 0x3B\<rparr>\<rparr>))
     = [[bytes ''1'', bytes ''2'', bytes ''3''], [bytes ''4'', bytes ''5'', bytes ''6'']]"
  "wrote (out (snd (Writer_WriteAll
      \<lparr>out = emptyBuffer, Config = \<lparr>TrimSpaces = False, FieldDelim = 0x3B\<rparr>\<rparr>
      [[bytes ''1'', bytes ''2'', bytes ''3''], [bytes ''4'', bytes ''5'', bytes ''6'']])))
     = bytes ''1;2;3'' @ [LF] @ bytes ''4;5;6'' @ [LF]"
  by (simp_all add: test_simps)

section \<open>When a cell is quoted\<close>

text \<open>
  A byte below \<open>0x80\<close> is found by the range loop exactly when it occurs in the
  string: it is never part of a longer encoding, and no longer encoding decodes to it.
\<close>

lemma rune_eq_iff: "rune a = rune b \<longleftrightarrow> a = b"
  by (simp add: rune_def word_uint_eq_iff)

lemma rune_ascii: "c < 0x80 \<Longrightarrow> rune c < 0x80"
  by (simp add: rune_def word_less_def)

lemma decoderune_high: "decoderune b s = (r, n) \<Longrightarrow> 0x80 \<le> r"
  by (auto simp: decoderune_def Let_def split: if_splits)

lemma decoderune_taken:
  assumes "decoderune b s = (r, n)"
  shows "n - 1 \<le> length s" and "\<forall>x \<in> set (take (n - 1) s). 0x80 \<le> x"
proof -
  have *: "n = 1 \<or> (n = 2 \<and> length s > 0 \<and> cont (s ! 0))
         \<or> (n = 3 \<and> length s > 1 \<and> cont (s ! 0) \<and> cont (s ! 1))
         \<or> (n = 4 \<and> length s > 2 \<and> cont (s ! 0) \<and> cont (s ! 1) \<and> cont (s ! 2))"
    using assms by (auto simp: decoderune_def Let_def split: if_splits)
  then show "n - 1 \<le> length s"
    by (auto simp: Suc_le_eq)
  have "\<forall>i < n - 1. 0x80 \<le> s ! i"
    using * by (auto simp: cont_def less_Suc_eq numeral_3_eq_3 numeral_2_eq_2)
  moreover have "n - 1 \<le> length s" using * by (auto simp: Suc_le_eq)
  ultimately show "\<forall>x \<in> set (take (n - 1) s). 0x80 \<le> x"
    by (auto simp: in_set_conv_nth)
qed

lemma stringRunes_ascii:
  "c < 0x80 \<Longrightarrow> rune c \<in> set (stringRunes s) \<longleftrightarrow> c \<in> set s"
proof (induction s rule: stringRunes.induct)
  case 1
  show ?case by simp
next
  case (2 b s)
  show ?case
  proof (cases "b < 0x80")
    case True
    with 2 show ?thesis
      by (auto simp: rune_eq_iff)
  next
    case False
    obtain r n where d: "decoderune b s = (r, n)"
      by (cases "decoderune b s") auto
    have r: "r \<noteq> rune c"
      using decoderune_high [OF d] rune_ascii [OF "2.prems"] by simp
    have "c \<in> set s \<longleftrightarrow> c \<in> set (take (n - 1) s) \<or> c \<in> set (drop (n - 1) s)"
      by (metis Un_iff append_take_drop_id set_append)
    moreover have "c \<notin> set (take (n - 1) s)"
      using decoderune_taken(2) [OF d] "2.prems" by auto
    moreover have "rune c \<in> set (stringRunes (drop (n - 1) s)) \<longleftrightarrow> c \<in> set (drop (n - 1) s)"
      using "2.IH"(2) [OF False d [symmetric]] "2.prems" by simp
    ultimately show ?thesis
      using False d r "2.prems" by auto
  qed
qed

lemma needsQuotes_ascii:
  assumes "FieldDelim (Writer.Config w) < 0x80"
  shows "needsQuotes w s \<longleftrightarrow>
     (s \<noteq> [] \<and> (hd s = SP \<or> last s = SP)) \<or> LF \<in> set s \<or> DQ \<in> set s \<or> TAB \<in> set s
       \<or> FieldDelim (Writer.Config w) \<in> set s"
proof -
  have "list_ex (\<lambda>c. c = rune LF \<or> c = rune DQ \<or> c = rune TAB
                       \<or> c = rune (FieldDelim (Writer.Config w))) (stringRunes s)
        \<longleftrightarrow> LF \<in> set s \<or> DQ \<in> set s \<or> TAB \<in> set s \<or> FieldDelim (Writer.Config w) \<in> set s"
    using stringRunes_ascii [of LF s] stringRunes_ascii [of DQ s] stringRunes_ascii [of TAB s]
      stringRunes_ascii [OF assms, of s]
    by (auto simp: list_ex_iff)
  then show ?thesis
    by (cases "s = []") (auto simp: needsQuotes_def hd_conv_nth last_conv_nth)
qed

text \<open>
  Claim C4. With a delimiter of \<open>0x80\<close> or above the quoting test does not look for
  the delimiter byte: the range loop yields runes, and \<open>rune(FieldDelim)\<close> is compared
  with decoded code points. For the delimiter \<open>0x80\<close> the field that consists of the
  byte \<open>0x80\<close> contains the delimiter, is not quoted and is written as it is; the
  reader, which compares bytes, takes the written row for two empty fields.
  (\<open>needsQuotes_ascii\<close> above is the claim for the delimiters below \<open>0x80\<close>.)
\<close>

theorem needsQuotes_misses_delimiter_byte:
  "FieldDelim (Writer.Config \<lparr>out = emptyBuffer, Config = \<lparr>TrimSpaces = False, FieldDelim = 0x80\<rparr>\<rparr>)
     \<in> set [0x80]
   \<and> needsQuotes \<lparr>out = emptyBuffer, Config = \<lparr>TrimSpaces = False, FieldDelim = 0x80\<rparr>\<rparr> [0x80]
       = False
   \<and> writeCell \<lparr>out = emptyBuffer, Config = \<lparr>TrimSpaces = False, FieldDelim = 0x80\<rparr>\<rparr> [0x80]
       = (None, \<lparr>out = \<lparr>wrote = [0x80], room = None\<rparr>,
                 Config = \<lparr>TrimSpaces = False, FieldDelim = 0x80\<rparr>\<rparr>)
   \<and> wrote (out (snd (WriteRow
         \<lparr>out = emptyBuffer, Config = \<lparr>TrimSpaces = False, FieldDelim = 0x80\<rparr>\<rparr> [[0x80]])))
       = [0x80, LF]
   \<and> fst (ReadRow ((str2Reader [0x80, LF])\<lparr>Config := \<lparr>TrimSpaces = False, FieldDelim = 0x80\<rparr>\<rparr>))
       = [[], []]"
  by (simp add: decoderune_def test_simps)

text \<open>
  Claim C10. For the delimiter \<open>0xFF\<close> the field with the two bytes \<open>0xC3 0xBF\<close>
  (the UTF-8 encoding of the code point \<open>0xFF\<close>) has no space at either end and holds
  no newline, double-quote, tab or delimiter byte, and yet it is quoted: the range
  loop decodes the two bytes to the rune \<open>0xFF\<close>, which equals \<open>rune(FieldDelim)\<close>.
  (With a delimiter below \<open>0x80\<close> such a field is written as it is, by
  \<open>needsQuotes_ascii\<close>; a \<open>'\r'\<close> in it changes nothing.)
\<close>

theorem needsQuotes_quotes_encoded_delimiter:
  "set [0xC3, 0xBF] \<inter> {SP, LF, DQ, TAB, 0xFF} = ({} :: byte set)
   \<and> needsQuotes \<lparr>out = emptyBuffer, Config = \<lparr>TrimSpaces = False, FieldDelim = 0xFF\<rparr>\<rparr>
         [0xC3, 0xBF] = True
   \<and> writeCell \<lparr>out = emptyBuffer, Config = \<lparr>TrimSpaces = False, FieldDelim = 0xFF\<rparr>\<rparr>
         [0xC3, 0xBF]
       = (None, \<lparr>out = \<lparr>wrote = [DQ, 0xC3, 0xBF, DQ], room = None\<rparr>,
                 Config = \<lparr>TrimSpaces = False, FieldDelim = 0xFF\<rparr>\<rparr>)"
  by (simp add: writeCell_def needsQuotes_def decoderune_def rune_def cont_def emptyBuffer_def
      WriteByte_def)

text \<open>
  Claim C8, as the code has it. A cell with \<open>n\<close> double-quotes that the writer
  quotes goes out (to a sink that takes it) as an opening double-quote, the bytes of
  the cell with every double-quote doubled, and a closing double-quote: \<open>2n\<close>
  double-quotes between the enclosing two, \<open>2n + 2\<close> in the emitted cell.
\<close>

theorem writeCell_quote_count:
  assumes "needsQuotes w cell" and "room (out w) = None"
  shows "writeCell w cell = (None, wrote_more w ([DQ] @ quoteDoubled cell @ [DQ]))
       \<and> count_list (quoteDoubled cell) DQ = 2 * count_list cell DQ
       \<and> count_list ([DQ] @ quoteDoubled cell @ [DQ]) DQ = 2 * count_list cell DQ + 2"
  using assms writeCell_unbounded [of w cell]
  by (simp add: cellBytes_def count_quoteDoubled)

text \<open>The cell \<open>a"b\<close> goes out as \<open>"a""b"\<close>.\<close>

theorem writeCell_quote_count_witness:
  "needsQuotes (NewWriter emptyBuffer) [0x61, DQ, 0x62]
   \<and> writeCell (NewWriter emptyBuffer) [0x61, DQ, 0x62] =
       (None, wrote_more (NewWriter emptyBuffer) [DQ, 0x61, DQ, DQ, 0x62, DQ])
   \<and> count_list [DQ, 0x61, DQ, DQ, 0x62, DQ] DQ = 2 * count_list [0x61, DQ, 0x62] DQ + 2"
proof -
  have q: "needsQuotes (NewWriter emptyBuffer) [0x61, DQ, 0x62]"
    by (simp add: needsQuotes_def rune_def)
  have r: "room (out (NewWriter emptyBuffer)) = None"
    by (simp add: NewWriter_def emptyBuffer_def)
  show ?thesis
    using writeCell_quote_count [OF q r] q by simp
qed

text \<open>
  The claim as stated fails on the cell that is one double-quote (\<open>n = 1\<close>): it is
  quoted, and the emitted bytes hold four double-quotes, not two.
\<close>

theorem writeCell_quote_count_counterexample:
  "needsQuotes (NewWriter emptyBuffer) [DQ]
   \<and> wrote (out (snd (writeCell (NewWriter emptyBuffer) [DQ]))) = [DQ, DQ, DQ, DQ]
   \<and> count_list (wrote (out (snd (writeCell (NewWriter emptyBuffer) [DQ])))) DQ
       \<noteq> 2 * count_list [DQ] DQ"
  by (simp add: writeCell_def needsQuotes_def rune_def NewWriter_def emptyBuffer_def
      WriteByte_def)

section \<open>What the cell scanner returns\<close>

lemma takeWhile_eq_replicate:
  "takeWhile (\<lambda>b. b = a) w = replicate (length (takeWhile (\<lambda>b. b = a) w)) a"
  by (induction w) simp_all

lemma trailCount_clean:
  "f = [] \<or> (last f \<noteq> SP \<and> last f \<noteq> CR) \<Longrightarrow> trailCount True 0 f = 0"
proof (cases f rule: rev_cases)
  case Nil
  then show ?thesis by simp
next
  case (snoc ys y)
  assume "f = [] \<or> (last f \<noteq> SP \<and> last f \<noteq> CR)"
  with snoc show ?thesis
    by (simp add: trailCount_snoc)
qed

text \<open>
  Claim C5. A quoted field: the opening double-quote, the text \<open>c\<close> with its
  double-quotes doubled, the closing double-quote, then a run of \<open>k\<close> spaces and
  the rest of the input, which does not start with a space (nor, when there is no space,
  with a double-quote, which would make the quote before it an escaped one). For every
  reader, whatever its \<open>TrimSpaces\<close>, \<open>parseCell\<close> returns \<open>c\<close> without any of the
  spaces and without an error, the terminator is the first byte after the run (0 when
  the input ends there), and the source is left just after that byte.
\<close>

theorem parseCell_quoted_eats_spaces:
  assumes "tail = [] \<or> hd tail \<noteq> SP" and "k = 0 \<longrightarrow> tail = [] \<or> hd tail \<noteq> DQ"
  shows "parseCell (feed r (DQ # quoteDoubled c @ DQ # replicate k SP @ tail)) =
         (c, (if tail = [] then 0 else hd tail), None, feed (r\<lparr>tmpbuf := c\<rparr>) (tl tail))"
  using parseCell_quoted [of r 0 tail k c] assms by simp

text \<open>The input \<open>"a"  ,b\<close> without trimming, and \<open>"a"\<close> followed by two spaces with it.\<close>

theorem parseCell_quoted_eats_spaces_witness:
  "parseCell (feed (NewReader (stringReader [])) [DQ, 0x61, DQ, SP, SP, COMMA, 0x62]) =
     ([0x61], COMMA, None, feed ((NewReader (stringReader []))\<lparr>tmpbuf := [0x61]\<rparr>) [0x62])
   \<and> parseCell (feed ((NewReader (stringReader []))\<lparr>Config := \<lparr>TrimSpaces = True, FieldDelim = COMMA\<rparr>\<rparr>)
         [DQ, 0x61, DQ, SP, SP]) =
     ([0x61], 0, None,
      feed ((NewReader (stringReader []))\<lparr>Config := \<lparr>TrimSpaces = True, FieldDelim = COMMA\<rparr>,
         tmpbuf := [0x61]\<rparr>) [])"
  using parseCell_quoted_eats_spaces [of "[COMMA, 0x62]" "Suc (Suc 0)" "NewReader (stringReader [])" "[0x61]"]
    parseCell_quoted_eats_spaces [of "[]" "Suc (Suc 0)"
      "(NewReader (stringReader []))\<lparr>Config := \<lparr>TrimSpaces = True, FieldDelim = COMMA\<rparr>\<rparr>" "[0x61]"]
  by simp

text \<open>
  The byte strings that hold no closing double-quote (\<open>unclosedQuoted\<close>) are exactly
  the texts with their double-quotes doubled.
\<close>

lemma unclosedQuoted_quoteDoubled: "unclosedQuoted (quoteDoubled c)"
proof (induction c)
  case Nil
  show ?case by simp
next
  case (Cons x c)
  then show ?case
    by (cases "quoteDoubled c") auto
qed

lemma unclosedQuoted_is_quoteDoubled: "unclosedQuoted xs \<Longrightarrow> \<exists>c. xs = quoteDoubled c"
proof (induction xs rule: unclosedQuoted.induct)
  case 1
  have "[] = quoteDoubled []" by simp
  then show ?case by blast
next
  case (2 b)
  then have "[b] = quoteDoubled [b]" by simp
  then show ?case by blast
next
  case (3 b b' bs)
  show ?case
  proof (cases "b = DQ")
    case True
    with 3 obtain c where "bs = quoteDoubled c" by auto
    with True 3 have "b # b' # bs = quoteDoubled (DQ # c)" by simp
    then show ?thesis by blast
  next
    case False
    with 3 obtain c where "b' # bs = quoteDoubled c" by auto
    with False have "b # b' # bs = quoteDoubled (b # c)" by simp
    then show ?thesis by blast
  qed
qed

text \<open>
  Claim C6. The input ends inside a quoted field: after the opening double-quote (and,
  with trimming, after leading spaces) the bytes \<open>body\<close> hold no closing double-quote,
  and the source then reports \<open>io.EOF\<close>. \<open>parseCell\<close> returns the empty string and
  the error \<open>io.ErrUnexpectedEOF\<close>, which is not \<open>io.EOF\<close>.
\<close>

theorem parseCell_unterminated_quote:
  assumes "fin (br r) = EOF" and "0 < k \<longrightarrow> TrimSpaces (Config r)" and "unclosedQuoted body"
  shows "(case parseCell (feed r (replicate k SP @ DQ # body)) of
            (c, t, e, r') \<Rightarrow> c = [] \<and> t = 0 \<and> e = Some ErrUnexpectedEOF)
         \<and> ErrUnexpectedEOF \<noteq> EOF"
proof -
  from assms(3) obtain c where "body = quoteDoubled c"
    using unclosedQuoted_is_quoteDoubled by blast
  then show ?thesis
    using parseCell_unterminated [of r k c] assms(1,2) by auto
qed

text \<open>The input of TestParseCellErr, shortened: \<open>"Un\<close>.\<close>

theorem parseCell_unterminated_quote_witness:
  "fin (br (NewReader (stringReader []))) = EOF \<and> unclosedQuoted [0x55, 0x6E] \<and>
   (case parseCell (feed (NewReader (stringReader [])) [DQ, 0x55, 0x6E]) of
      (c, t, e, r') \<Rightarrow> c = [] \<and> t = 0 \<and> e = Some ErrUnexpectedEOF)"
proof -
  have h: "fin (br (NewReader (stringReader []))) = EOF" "unclosedQuoted [0x55, 0x6E]"
    by (simp_all add: NewReader_def stringReader_def)
  show ?thesis
    using parseCell_unterminated_quote [OF h(1) _ h(2), of 0] h by simp
qed

text \<open>
  Claim C3. An unquoted field whose scan ends at \<open>'\r'\<close> followed by \<open>'\n'\<close>: the
  input is \<open>w\<close>, \<open>'\r'\<close>, \<open>'\n'\<close> and the rest, where \<open>w\<close> holds no newline and no
  delimiter (and \<open>'\r'\<close> is not the delimiter). \<open>f\<close> is the field as scanned: \<open>w\<close>, less
  its leading spaces when \<open>TrimSpaces\<close> is set; it does not start with a double-quote.
  No other trailing whitespace is counted: with \<open>TrimSpaces\<close>, \<open>f\<close> does not end with a
  space or another \<open>'\r'\<close>; without it nothing is counted at all. Then \<open>parseCell\<close>
  scans \<open>f\<close> and the \<open>'\r'\<close> into its buffer and returns exactly \<open>f\<close>, with the
  terminator \<open>'\n'\<close>, whether \<open>TrimSpaces\<close> is set or not.
\<close>

theorem parseCell_CRLF_drops_CR:
  assumes "LF \<notin> set w" and "FieldDelim (Config r) \<notin> set (w @ [CR])"
    and "f = (if TrimSpaces (Config r) then dropWhile (\<lambda>b. b = SP) w else w)"
    and "hd (f @ [CR]) \<noteq> DQ"
    and "TrimSpaces (Config r) \<longrightarrow> f = [] \<or> (last f \<noteq> SP \<and> last f \<noteq> CR)"
  shows "parseCell (feed r (w @ CR # LF # rest)) =
         (f, LF, None, feed (r\<lparr>tmpbuf := f @ [CR]\<rparr>) rest)"
proof -
  define k where "k = (if TrimSpaces (Config r) then length (takeWhile (\<lambda>b. b = SP) w) else 0)"
  have w: "w = replicate k SP @ f"
  proof (cases "TrimSpaces (Config r)")
    case True
    have "w = takeWhile (\<lambda>b. b = SP) w @ dropWhile (\<lambda>b. b = SP) w"
      by simp
    with True assms(3) show ?thesis
      unfolding k_def using takeWhile_eq_replicate [of SP w] by simp
  next
    case False
    with assms(3) show ?thesis by (simp add: k_def)
  qed
  have sub: "set f \<subseteq> set w"
    using assms(3) by (auto dest: set_dropWhileD)
  have hdf: "TrimSpaces (Config r) \<Longrightarrow> f \<noteq> [] \<Longrightarrow> hd f \<noteq> SP"
    using assms(3) hd_dropWhile [of "\<lambda>b. b = SP" w] by simp
  have c1: "if TrimSpaces (Config r) then f @ [CR] = [] \<or> hd (f @ [CR]) \<noteq> SP else k = 0"
    using hdf by (cases f) (auto simp: k_def)
  have c2: "LF \<notin> set (f @ [CR])" "FieldDelim (Config r) \<notin> set (f @ [CR])"
    using assms(1,2) sub by auto
  have c5: "f @ [CR] = [] \<or> hd (f @ [CR]) \<noteq> DQ"
    using assms(4) by simp
  have tc: "trailCount (TrimSpaces (Config r)) 0 (f @ [CR]) = (if TrimSpaces (Config r) then 1 else 0)"
    using assms(5) trailCount_clean [of f] by (simp add: trailCount_snoc)
  have "parseCell (feed r (replicate k SP @ (f @ [CR]) @ LF # rest)) =
        (f, LF, None, feed (r\<lparr>tmpbuf := f @ [CR]\<rparr>) rest)"
    by (subst parseCell_unquoted [OF c1 c2 _ c5]) (simp_all add: tc Let_def)
  with w show ?thesis
    by simp
qed

text \<open>
  The input \<open>a \r\nb\<close> with the default configuration, where nothing is trimmed,
  and the input \<open> a\r\nb\<close> with trimming.
\<close>

theorem parseCell_CRLF_drops_CR_witness:
  "parseCell (feed (NewReader (stringReader [])) [0x61, SP, CR, LF, 0x62]) =
     ([0x61, SP], LF, None, feed ((NewReader (stringReader []))\<lparr>tmpbuf := [0x61, SP, CR]\<rparr>) [0x62])
   \<and> parseCell (feed ((NewReader (stringReader []))
         \<lparr>Config := \<lparr>TrimSpaces = True, FieldDelim = COMMA\<rparr>\<rparr>) [SP, 0x61, CR, LF, 0x62]) =
     ([0x61], LF, None,
      feed ((NewReader (stringReader []))
         \<lparr>Config := \<lparr>TrimSpaces = True, FieldDelim = COMMA\<rparr>, tmpbuf := [0x61, CR]\<rparr>) [0x62])"
  using parseCell_CRLF_drops_CR [of "[0x61, SP]" "NewReader (stringReader [])" "[0x61, SP]" "[0x62]"]
    parseCell_CRLF_drops_CR [of "[SP, 0x61]"
      "(NewReader (stringReader []))\<lparr>Config := \<lparr>TrimSpaces = True, FieldDelim = COMMA\<rparr>\<rparr>"
      "[0x61]" "[0x62]"]
  by (simp add: NewReader_def DefaultConfig_def)

section \<open>What the row reader does with a terminator\<close>

lemma ReadRowLoop_sentinel:
  "parseCell r = (c, 0, None, r1) \<Longrightarrow> ReadRowLoop result r = (result @ [c], None, r1)"
  by (subst ReadRowLoop.simps) simp

lemma ReadRowLoop_error:
  "parseCell r = (c, b, Some x, r1) \<Longrightarrow>
   ReadRowLoop result r = ((if x = EOF \<and> length result > 0 then result @ [c] else result), Some x, r1)"
  by (subst ReadRowLoop.simps) simp

lemma ReadRowLoop_terminator:
  "parseCell r = (c, b, None, r1) \<Longrightarrow> b \<noteq> 0 \<Longrightarrow>
   (if b = CR then brReadByte r1 else (b, None, r1)) = (b', e', r2) \<Longrightarrow>
   ReadRowLoop result r =
     (case e' of
        Some x \<Rightarrow> ([], Some x, r2)
      | None \<Rightarrow>
          if b' = FieldDelim (Config r2) then ReadRowLoop (result @ [c]) r2
          else if b' = LF then (result @ [c], None, r2)
          else ([], Some (ErrExpected b'), r2))"
  by (subst ReadRowLoop.simps) (simp add: Let_def)

lemma parseCell_exhausted:
  "pending (br r) = [] \<Longrightarrow> fin (br r) = EOF \<Longrightarrow> parseCell r = ([], 0, Some EOF, r\<lparr>tmpbuf := []\<rparr>)"
  by (simp add: parseCell_def brReadByte_def ReadByte_def eatSpaces_stop)

text \<open>
  Claim C2, as the code has it. \<open>ReadRowLoop result\<close> is \<open>ReadRow\<close> at the point
  where the row has collected \<open>result\<close>, and \<open>parseCell\<close> is called for the next cell.
  When the cell comes back without an error and with the terminator 0, the row with
  that cell is returned with no error; when the input is exhausted at that point, the
  next \<open>ReadRow\<close> returns no row and \<open>io.EOF\<close>. When \<open>parseCell\<close> itself reports
  \<open>io.EOF\<close> (no byte was left for the cell), a row that has collected a field gets
  the empty cell appended and is returned together with \<open>io.EOF\<close>; an empty row is
  returned empty with \<open>io.EOF\<close>.
\<close>

theorem ReadRow_end_of_input:
  assumes "parseCell r = (c, b, e, r1)"
  shows "(e = None \<and> b = 0 \<longrightarrow>
            ReadRowLoop result r = (result @ [c], None, r1) \<and>
            (pending (br r1) = [] \<and> fin (br r1) = EOF \<longrightarrow>
               ReadRow r1 = ([], Some EOF, r1\<lparr>tmpbuf := []\<rparr>)))
       \<and> (e = Some EOF \<longrightarrow>
            ReadRowLoop result r = (if result \<noteq> [] then result @ [c] else result, Some EOF, r1))"
  using assms
  by (auto simp: ReadRowLoop_sentinel ReadRowLoop_error ReadRow_def parseCell_exhausted)

text \<open>The input \<open>ab\<close>, the exhausted input after it, and the exhausted input after \<open>a,\<close>.\<close>

theorem ReadRow_end_of_input_witness:
  "ReadRowLoop [] (feed (NewReader (stringReader [])) [0x61, 0x62]) =
     ([[0x61, 0x62]], None, feed ((NewReader (stringReader []))\<lparr>tmpbuf := [0x61, 0x62]\<rparr>) [])
   \<and> ReadRow (feed ((NewReader (stringReader []))\<lparr>tmpbuf := [0x61, 0x62]\<rparr>) []) =
     ([], Some EOF, feed (NewReader (stringReader [])) [])
   \<and> ReadRowLoop [[0x61]] (feed (NewReader (stringReader [])) []) =
     ([[0x61], []], Some EOF, feed (NewReader (stringReader [])) [])"
proof -
  have p1: "parseCell (feed (NewReader (stringReader [])) [0x61, 0x62]) =
     ([0x61, 0x62], 0, None, feed ((NewReader (stringReader []))\<lparr>tmpbuf := [0x61, 0x62]\<rparr>) [])"
    by (simp add: scan_simps)
  have p2: "parseCell (feed (NewReader (stringReader [])) []) =
     ([], 0, Some EOF, feed (NewReader (stringReader [])) [])"
    by (simp add: scan_simps)
  show ?thesis
    using ReadRow_end_of_input [OF p1, of "[]"] ReadRow_end_of_input [OF p2, of "[[0x61]]"]
    by (simp add: NewReader_def stringReader_def feed_def)
qed

text \<open>
  The claim as stated fails on the input \<open>a,\<close>: the first cell is \<open>a\<close>, for the second
  the scanner reports \<open>io.EOF\<close>, and the one call of \<open>ReadRow\<close> returns the row
  \<open>["a", ""]\<close> and \<open>io.EOF\<close> together.
\<close>

theorem ReadRow_eof_with_row_counterexample:
  "parseCell (NewReader (stringReader [0x61, COMMA])) =
     ([0x61], COMMA, None, feed ((NewReader (stringReader []))\<lparr>tmpbuf := [0x61]\<rparr>) [])
   \<and> parseCell (feed ((NewReader (stringReader []))\<lparr>tmpbuf := [0x61]\<rparr>) []) =
     ([], 0, Some EOF, feed (NewReader (stringReader [])) [])
   \<and> ReadRow (NewReader (stringReader [0x61, COMMA])) =
     ([[0x61], []], Some EOF, feed (NewReader (stringReader [])) [])"
  by (simp add: ReadRow_def ReadRowLoop.simps scan_simps)

text \<open>
  Claim C7, as the code has it. When a cell ends with the terminator \<open>'\r'\<close>,
  \<open>ReadRow\<close> reads the byte after it. A failure of that read (\<open>io.EOF\<close> too) is
  returned with no row. Otherwise the byte is treated as the terminator: the field
  delimiter continues the row with the next cell, \<open>'\n'\<close> completes the row, and any
  other byte is the error that names it.
\<close>

theorem ReadRow_after_CR:
  assumes "parseCell r = (c, CR, None, r1)" and "brReadByte r1 = (b, e, r2)"
  shows "ReadRowLoop result r =
     (case e of
        Some x \<Rightarrow> ([], Some x, r2)
      | None \<Rightarrow>
          if b = FieldDelim (Config r2) then ReadRowLoop (result @ [c]) r2
          else if b = LF then (result @ [c], None, r2)
          else ([], Some (ErrExpected b), r2))"
  using ReadRowLoop_terminator [OF assms(1), of b e r2 result] assms(2) by simp

text \<open>The inputs \<open>"a"\r\n\<close> and \<open>"a"\rb\<close>.\<close>

theorem ReadRow_after_CR_witness:
  "ReadRowLoop [] (feed (NewReader (stringReader [])) [DQ, 0x61, DQ, CR, LF]) =
     ([[0x61]], None, feed ((NewReader (stringReader []))\<lparr>tmpbuf := [0x61]\<rparr>) [])
   \<and> ReadRowLoop [] (feed (NewReader (stringReader [])) [DQ, 0x61, DQ, CR, 0x62]) =
     ([], Some (ErrExpected 0x62), feed ((NewReader (stringReader []))\<lparr>tmpbuf := [0x61]\<rparr>) [])"
proof -
  have p1: "parseCell (feed (NewReader (stringReader [])) [DQ, 0x61, DQ, CR, LF]) =
     ([0x61], CR, None, feed ((NewReader (stringReader []))\<lparr>tmpbuf := [0x61]\<rparr>) [LF])"
    by (simp add: scan_simps)
  have r1: "brReadByte (feed ((NewReader (stringReader []))\<lparr>tmpbuf := [0x61]\<rparr>) [LF]) =
     (LF, None, feed ((NewReader (stringReader []))\<lparr>tmpbuf := [0x61]\<rparr>) [])"
    by simp
  have p2: "parseCell (feed (NewReader (stringReader [])) [DQ, 0x61, DQ, CR, 0x62]) =
     ([0x61], CR, None, feed ((NewReader (stringReader []))\<lparr>tmpbuf := [0x61]\<rparr>) [0x62])"
    by (simp add: scan_simps)
  have r2: "brReadByte (feed ((NewReader (stringReader []))\<lparr>tmpbuf := [0x61]\<rparr>) [0x62]) =
     (0x62, None, feed ((NewReader (stringReader []))\<lparr>tmpbuf := [0x61]\<rparr>) [])"
    by simp
  show ?thesis
    using ReadRow_after_CR [OF p1 r1, of "[]"] ReadRow_after_CR [OF p2 r2, of "[]"]
    by (simp add: NewReader_def DefaultConfig_def)
qed

text \<open>
  The claim as stated fails on the input \<open>"a"\r,b\n\<close>: the byte after \<open>'\r'\<close> is the
  delimiter, not \<open>'\n'\<close>, and the row \<open>["a", "b"]\<close> is returned without an error.
\<close>

theorem ReadRow_CR_before_delimiter_counterexample:
  "ReadRow (NewReader (stringReader [DQ, 0x61, DQ, CR, COMMA, 0x62, LF])) =
     ([[0x61], [0x62]], None, feed ((NewReader (stringReader []))\<lparr>tmpbuf := [0x62]\<rparr>) [])"
  by (simp add: ReadRow_def ReadRowLoop.simps scan_simps)

section \<open>Writing a table and reading it back\<close>

lemma needsQuotes_default:
  assumes "Writer.Config w = DefaultConfig"
  shows "needsQuotes w s \<longleftrightarrow>
     (s \<noteq> [] \<and> (hd s = SP \<or> last s = SP)) \<or> LF \<in> set s \<or> DQ \<in> set s \<or> TAB \<in> set s
       \<or> COMMA \<in> set s"
  using needsQuotes_ascii [of w s] assms by (simp add: DefaultConfig_def)

lemma parseCell_cellBytes:
  assumes "Config r = DefaultConfig" and "Writer.Config w = DefaultConfig"
    and "t = COMMA \<or> t = LF"
    and "t = LF \<longrightarrow> needsQuotes w f \<or> f = [] \<or> last f \<noteq> CR"
  shows "parseCell (feed r (cellBytes w f @ t # rest)) = (f, t, None, feed (r\<lparr>tmpbuf := f\<rparr>) rest)"
proof (cases "needsQuotes w f")
  case True
  have "parseCell (feed r (replicate 0 SP @ DQ # quoteDoubled f @ DQ # replicate 0 SP @ t # rest))
        = (f, (if t # rest = [] then 0 else hd (t # rest)), None, feed (r\<lparr>tmpbuf := f\<rparr>) (tl (t # rest)))"
    using assms(1,3) by (intro parseCell_quoted) (auto simp: DefaultConfig_def)
  with True show ?thesis
    by (simp add: cellBytes_def)
next
  case False
  then have nq: "f = [] \<or> hd f \<noteq> SP" "LF \<notin> set f" "DQ \<notin> set f" "COMMA \<notin> set f"
    using needsQuotes_default [OF assms(2), of f] by auto
  have hdq: "f = [] \<or> hd f \<noteq> DQ"
    using nq(3) by (cases f) auto
  have cfg: "TrimSpaces (Config r) = False" "FieldDelim (Config r) = COMMA"
    using assms(1) by (simp_all add: DefaultConfig_def)
  have "parseCell (feed r (replicate 0 SP @ f @ t # rest)) =
         (let ts = trailCount (TrimSpaces (Config r)) 0 f;
              ts' = (if f \<noteq> [] \<and> last f = CR \<and> t = LF \<and> ts = 0 then 1 else ts)
          in (take (length f - ts') f, t, None, feed (r\<lparr>tmpbuf := f\<rparr>) rest))"
    using assms(3) nq hdq cfg by (intro parseCell_unquoted) auto
  with False assms(4) cfg show ?thesis
    by (auto simp: cellBytes_def Let_def)
qed

lemma ReadRowLoop_row:
  assumes "Config r = DefaultConfig" and "Writer.Config w = DefaultConfig"
    and "needsQuotes w (last (f # fs)) \<or> last (f # fs) = [] \<or> last (last (f # fs)) \<noteq> CR"
  shows "ReadRowLoop acc (feed r (cellBytes w f @ cellsBytes w (Suc i) fs @ LF # rest)) =
         (acc @ f # fs, None, feed (r\<lparr>tmpbuf := last (f # fs)\<rparr>) rest)"
  using assms
proof (induction fs arbitrary: f acc r i)
  case Nil
  have pc: "parseCell (feed r (cellBytes w f @ LF # rest)) = (f, LF, None, feed (r\<lparr>tmpbuf := f\<rparr>) rest)"
    using Nil.prems by (intro parseCell_cellBytes) auto
  have "ReadRowLoop acc (feed r (cellBytes w f @ LF # rest)) =
        (acc @ [f], None, feed (r\<lparr>tmpbuf := f\<rparr>) rest)"
    using ReadRowLoop_terminator [OF pc, of LF None "feed (r\<lparr>tmpbuf := f\<rparr>) rest" acc] Nil.prems(1)
    by (simp add: DefaultConfig_def)
  then show ?case by simp
next
  case (Cons g gs)
  let ?rest = "cellBytes w g @ cellsBytes w (Suc (Suc i)) gs @ LF # rest"
  have pc: "parseCell (feed r (cellBytes w f @ COMMA # ?rest)) =
            (f, COMMA, None, feed (r\<lparr>tmpbuf := f\<rparr>) ?rest)"
    using Cons.prems by (intro parseCell_cellBytes) auto
  have step: "ReadRowLoop acc (feed r (cellBytes w f @ COMMA # ?rest)) =
        ReadRowLoop (acc @ [f]) (feed (r\<lparr>tmpbuf := f\<rparr>) ?rest)"
    using ReadRowLoop_terminator [OF pc, of COMMA None "feed (r\<lparr>tmpbuf := f\<rparr>) ?rest" acc] Cons.prems(1)
    by (simp add: DefaultConfig_def)
  have "ReadRowLoop (acc @ [f]) (feed (r\<lparr>tmpbuf := f\<rparr>) ?rest) =
        ((acc @ [f]) @ g # gs, None, feed (r\<lparr>tmpbuf := f, tmpbuf := last (g # gs)\<rparr>) rest)"
    using Cons.prems by (intro Cons.IH) auto
  with step Cons.prems(2) show ?case
    by (simp add: DefaultConfig_def)
qed

lemma ReadAllLoop_rows:
  assumes "Config r = DefaultConfig" and "Writer.Config w = DefaultConfig" and "fin (br r) = EOF"
    and "\<forall>row \<in> set rows. row \<noteq> [] \<and>
           (needsQuotes w (last row) \<or> last row = [] \<or> last (last row) \<noteq> CR)"
  shows "ReadAllLoop acc (feed r (concat (map (rowBytes w) rows))) =
         (acc @ rows, None, feed (r\<lparr>tmpbuf := []\<rparr>) [])"
  using assms
proof (induction rows arbitrary: acc r)
  case Nil
  have "ReadRow (feed r []) = ([], Some EOF, feed (r\<lparr>tmpbuf := []\<rparr>) [])"
    using Nil.prems(3) ReadRowLoop_error [of "feed r []" "[]" 0 EOF "feed (r\<lparr>tmpbuf := []\<rparr>) []" "[]"]
      parseCell_exhausted [of "feed r []"]
    by (simp add: ReadRow_def)
  then show ?case
    by (subst ReadAllLoop.simps) simp
next
  case (Cons row rows)
  from Cons.prems(4) obtain f fs where row: "row = f # fs"
    by (cases row) auto
  let ?rest = "concat (map (rowBytes w) rows)"
  have "ReadRowLoop [] (feed r (cellBytes w f @ cellsBytes w (Suc 0) fs @ LF # ?rest)) =
         ([] @ f # fs, None, feed (r\<lparr>tmpbuf := last (f # fs)\<rparr>) ?rest)"
    using Cons.prems row by (intro ReadRowLoop_row) auto
  then have rr: "ReadRow (feed r (rowBytes w row @ ?rest)) =
                 (row, None, feed (r\<lparr>tmpbuf := last row\<rparr>) ?rest)"
    using row by (simp add: ReadRow_def rowBytes_def)
  have "ReadAllLoop (acc @ [row]) (feed (r\<lparr>tmpbuf := last row\<rparr>) ?rest) =
        ((acc @ [row]) @ rows, None, feed (r\<lparr>tmpbuf := last row, tmpbuf := []\<rparr>) [])"
    using Cons.prems by (intro Cons.IH) auto
  with rr show ?case
    by (subst ReadAllLoop.simps) simp
qed

text \<open>
  Claim C1, as the code has it. Take a table in which every row has at least one
  field and no row ends with a field that the writer leaves unquoted and that ends
  with \<open>'\r'\<close>. \<open>WriteAll\<close> with the default configuration, into an empty buffer,
  reports no error, and \<open>ReadAll\<close> on the bytes it wrote returns exactly the table
  and no error. The fields are arbitrary byte strings otherwise.
\<close>

theorem WriteAll_ReadAll_roundtrip:
  assumes "\<forall>row \<in> set rows. row \<noteq> [] \<and>
     (needsQuotes (NewWriter emptyBuffer) (last row) \<or> last row = [] \<or> last (last row) \<noteq> CR)"
  shows "fst (WriteAll emptyBuffer rows) = None
       \<and> ReadAll (stringReader (wrote (snd (WriteAll emptyBuffer rows)))) = (rows, None)"
proof -
  let ?w = "NewWriter emptyBuffer"
  let ?bytes = "concat (map (rowBytes ?w) rows)"
  have wr: "WriteAll emptyBuffer rows = (None, \<lparr>wrote = ?bytes, room = None\<rparr>)"
    using Writer_WriteAll_unbounded [of ?w rows]
    by (simp add: WriteAll_def wrote_more_def NewWriter_def emptyBuffer_def)
  have rd: "NewReader (stringReader ?bytes) = feed (NewReader (stringReader [])) ?bytes"
    by (simp add: NewReader_def stringReader_def feed_def)
  have "ReadAllLoop [] (feed (NewReader (stringReader [])) ?bytes) =
        ([] @ rows, None, feed ((NewReader (stringReader []))\<lparr>tmpbuf := []\<rparr>) [])"
    using assms by (intro ReadAllLoop_rows) (simp_all add: NewReader_def NewWriter_def stringReader_def)
  then have "ReadAll (stringReader ?bytes) = (rows, None)"
    by (simp add: ReadAll_def Reader_ReadAll_def rd)
  with wr show ?thesis
    by simp
qed

text \<open>
  The table \<open>[["a,", " "], ["", "\"\r"]]\<close>: its last field ends with \<open>'\r'\<close> and is
  quoted for its double-quote.
\<close>

theorem WriteAll_ReadAll_roundtrip_witness:
  "fst (WriteAll emptyBuffer [[[0x61, COMMA], [SP]], [[], [DQ, CR]]]) = None
   \<and> wrote (snd (WriteAll emptyBuffer [[[0x61, COMMA], [SP]], [[], [DQ, CR]]])) =
       [DQ, 0x61, COMMA, DQ, COMMA, DQ, SP, DQ, LF, COMMA, DQ, DQ, DQ, CR, DQ, LF]
   \<and> ReadAll (stringReader (wrote (snd (WriteAll emptyBuffer [[[0x61, COMMA], [SP]], [[], [DQ, CR]]]))))
       = ([[[0x61, COMMA], [SP]], [[], [DQ, CR]]], None)"
proof -
  have h: "\<forall>row \<in> set [[[0x61, COMMA], [SP]], [[], [DQ, CR :: byte]]]. row \<noteq> [] \<and>
     (needsQuotes (NewWriter emptyBuffer) (last row) \<or> last row = [] \<or> last (last row) \<noteq> CR)"
    by (simp add: needsQuotes_def rune_def)
  have w: "wrote (snd (WriteAll emptyBuffer [[[0x61, COMMA], [SP]], [[], [DQ, CR]]])) =
       [DQ, 0x61, COMMA, DQ, COMMA, DQ, SP, DQ, LF, COMMA, DQ, DQ, DQ, CR, DQ, LF]"
    by (simp add: write_simps)
  show ?thesis
    using WriteAll_ReadAll_roundtrip [OF h] w by simp
qed

text \<open>
  The claim as stated fails on two tables. The field \<open>"\r"\<close> is written without
  quotes, and the reader takes it for the \<open>'\r'\<close> of a line ending: \<open>[["\r"]]\<close> comes back
  as \<open>[[""]]\<close>. A row without fields is written as an empty line, which reads as a row
  with one empty field: \<open>[[]]\<close> comes back as \<open>[[""]]\<close>.
\<close>

theorem WriteAll_ReadAll_roundtrip_counterexample:
  "wrote (snd (WriteAll emptyBuffer [[[CR]]])) = [CR, LF]
   \<and> ReadAll (stringReader (wrote (snd (WriteAll emptyBuffer [[[CR]]])))) = ([[[]]], None)
   \<and> ReadAll (stringReader (wrote (snd (WriteAll emptyBuffer [[[CR]]])))) \<noteq> ([[[CR]]], None)
   \<and> wrote (snd (WriteAll emptyBuffer [[]])) = [LF]
   \<and> ReadAll (stringReader (wrote (snd (WriteAll emptyBuffer [[]])))) = ([[[]]], None)
   \<and> ReadAll (stringReader (wrote (snd (WriteAll emptyBuffer [[]])))) \<noteq> ([[]], None)"
proof -
  have w1: "wrote (snd (WriteAll emptyBuffer [[[CR]]])) = [CR, LF]"
    by (simp add: write_simps)
  have w2: "wrote (snd (WriteAll emptyBuffer [[]])) = [LF]"
    by (simp add: write_simps)
  have r1: "ReadAll (stringReader [CR, LF]) = ([[[]]], None)"
    by (simp add: read_simps)
  have r2: "ReadAll (stringReader [LF]) = ([[[]]], None)"
    by (simp add: read_simps)
  show ?thesis
    by (simp add: w1 w2 r1 r2)
qed

section \<open>Whole-table reader on an empty input\<close>

text \<open>
  Claim C9. Decoding an entirely empty input with \<open>ReadAll\<close> yields the empty table
  (no rows) and no error.
\<close>

theorem ReadAll_empty_input: "ReadAll (stringReader []) = ([], None)"
  by (simp add: ReadAll_def Reader_ReadAll_def ReadAllLoop.simps ReadRow_def
      ReadRowLoop.simps parseCell_def NewReader_def stringReader_def brReadByte_def
      ReadByte_def DefaultConfig_def)

end
